theory Spec2Isabelle
  imports Main
begin

section \<open>Strings and errors\<close>

text \<open>
  A JavaScript string is a sequence of code units; the codec only ever compares a code
  unit with the double quote, the comma and the newline, so a string is modelled as a
  \<open>char list\<close>. Reading \<open>data[i]\<close> beyond the end of a string gives \<open>undefined\<close>,
  which is \<open>None\<close> here.
\<close>

abbreviation dquote :: char where "dquote \<equiv> CHR 0x22"
abbreviation comma :: char where "comma \<equiv> CHR 0x2C"
abbreviation newline :: char where "newline \<equiv> CHR 0x0A"

definition char_at :: "string \<Rightarrow> nat \<Rightarrow> char option" where
  "char_at data i = (if i < length data then Some (data ! i) else None)"

datatype ErrorTypes = InconsistentRowLengths | CannotAccessFile | Unknown

text \<open>
  \<open>Table.Error\<close>: the optional fields are options; \<open>e_data\<close> holds the error of the file
  system, of which only a message is kept.
\<close>

record Error =
  e_type :: ErrorTypes
  e_description :: "string option"
  e_data :: "string option"
  e_dataDescription :: "string option"

text \<open>Decimal rendering of a number inside a template literal.\<close>

fun digits :: "nat \<Rightarrow> string" where
  "digits n = (if n < 10 then [char_of (48 + n)] else digits (n div 10) @ [char_of (48 + n mod 10)])"

declare digits.simps [simp del]

text \<open>
  The error thrown by the setter of \<open>data\<close> and rejected by \<open>getDataFrom\<close>:
  \<open>The row number ${row} does not have the correct amount of columns
  (it has ${has} instead of ${expected})\<close>.
\<close>

definition row_length_error :: "nat \<Rightarrow> nat \<Rightarrow> nat \<Rightarrow> Error" where
  "row_length_error row has expected =
     \<lparr> e_type = InconsistentRowLengths,
       e_description = Some (''The row number '' @ digits row
         @ '' does not have the correct amount of columns (it has '' @ digits has
         @ '' instead of '' @ digits expected @ '')''),
       e_data = None,
       e_dataDescription = None \<rparr>"

section \<open>The table\<close>

record Table =
  t_columns :: "string list"
  t_data :: "string list list"

text \<open>The property initialisers of the class: both fields start empty.\<close>

definition new_object :: Table where
  "new_object = \<lparr> t_columns = [], t_data = [] \<rparr>"

subsection \<open>The setter of \<open>data\<close> and the constructor from columns and rows\<close>

text \<open>
  The validation loop of the setter, from row \<open>i\<close> on: the first row whose length is not
  the number of columns throws, with its number counted from one.
\<close>

function check_rows :: "string list \<Rightarrow> string list list \<Rightarrow> nat \<Rightarrow> Error option" where
  "check_rows columns rows i =
     (if i < length rows then
        if length (rows ! i) \<noteq> length columns
        then Some (row_length_error (i + 1) (length (rows ! i)) (length columns))
        else check_rows columns rows (i + 1)
      else None)"
  by pat_completeness auto
termination
  by (relation "measure (\<lambda>(columns, rows, i). length rows - i)") auto

declare check_rows.simps [simp del]

text \<open>
  A stateful operation returns what it throws, if anything, and the object afterwards.
  The setter assigns only after the loop has come to its end. In this part the rows and
  the columns are values, which is all that the validation and the codec look at; that the
  assignment stores the array of the caller, and not a copy of it, is modelled with the
  store in the second part (\<open>store_set_data\<close>).
\<close>

definition set_data :: "Table \<Rightarrow> string list list \<Rightarrow> Error option \<times> Table" where
  "set_data this rows =
     (case check_rows (t_columns this) rows 0 of
        Some e \<Rightarrow> (Some e, this)
      | None \<Rightarrow> (None, this\<lparr>t_data := rows\<rparr>))"

definition set_columns :: "Table \<Rightarrow> string list \<Rightarrow> Table" where
  "set_columns this columns = this\<lparr>t_columns := columns\<rparr>"

text \<open>
  The body of the constructor on the object under construction (second overload:
  \<open>this.columns = columns; this.data = data\<close>).
\<close>

definition constructor_body :: "string list \<Rightarrow> string list list \<Rightarrow> Error option \<times> Table" where
  "constructor_body columns rows = set_data (set_columns new_object columns) rows"

text \<open>\<open>new Table(columns, data)\<close>: a constructor that throws gives no object.\<close>

definition new_Table :: "string list \<Rightarrow> string list list \<Rightarrow> Error + Table" where
  "new_Table columns rows =
     (case constructor_body columns rows of
        (Some e, this) \<Rightarrow> Inl e
      | (None, this) \<Rightarrow> Inr this)"

section \<open>Serialisation\<close>

text \<open>
  One step of the loop of \<open>convertToproperStr\<close> on the character \<open>c\<close>: the state is
  \<open>(needsQuotes, properString)\<close>. The comma and the newline fall through to the default
  case of the switch.
\<close>

definition convert_step :: "char \<Rightarrow> bool \<times> string \<Rightarrow> bool \<times> string" where
  "convert_step c s =
     (case s of (needsQuotes, properString) \<Rightarrow>
        let (needsQuotes1, properString1) =
              (if c = dquote then (needsQuotes, properString @ [dquote, dquote])
               else if c = comma \<or> c = newline then (True, properString @ [c])
               else (needsQuotes, properString @ [c]))
        in (if c = comma then True else needsQuotes1, properString1))"

definition convertToproperStr :: "string \<Rightarrow> string" where
  "convertToproperStr str =
     (case fold (\<lambda>k. convert_step (str ! k)) [0..<length str]
             (char_at str 0 = Some dquote, [dquote]) of
        (needsQuotes, properString) \<Rightarrow>
          if needsQuotes then properString @ [dquote] else str)"

text \<open>The inner loop of \<open>toString\<close>: the fields of one row appended to \<open>str\<close>.\<close>

definition append_row :: "string \<Rightarrow> string list \<Rightarrow> string" where
  "append_row str row =
     fold (\<lambda>j s. s @ (if j \<noteq> 0 then [comma] else []) @ convertToproperStr (row ! j))
       [0..<length row] str"

definition toString :: "Table \<Rightarrow> string" where
  "toString this =
     (let str = append_row [] (t_columns this) in
      if length (t_data this) = 0 then str
      else fold (\<lambda>i s. append_row (s @ (if i \<noteq> 0 then [newline] else [])) (t_data this ! i))
             [0..<length (t_data this)] (str @ [newline]))"

section \<open>Parsing\<close>

text \<open>
  The loop of \<open>parseColumn\<close> inside a quoted field. Its bound is
  \<open>i < data.length - 1\<close>, computed in the integers.
\<close>

function parseColumn_quoted :: "string \<Rightarrow> nat \<Rightarrow> string \<Rightarrow> string \<times> nat" where
  "parseColumn_quoted data i parsedColumn =
     (if int i < int (length data) - 1 then
        if data ! i \<noteq> dquote then parseColumn_quoted data (i + 1) (parsedColumn @ [data ! i])
        else if data ! (i + 1) = dquote
          then parseColumn_quoted data (i + 2) (parsedColumn @ [data ! i])
        else (parsedColumn, i + 1)
      else (parsedColumn, length data))"
  by pat_completeness auto
termination
  by (relation "measure (\<lambda>(data, i, parsedColumn). length data - i)") auto

declare parseColumn_quoted.simps [simp del]

text \<open>The loop of \<open>parseColumn\<close> outside quotes.\<close>

function parseColumn_unquoted :: "string \<Rightarrow> nat \<Rightarrow> string \<Rightarrow> string \<times> nat" where
  "parseColumn_unquoted data i parsedColumn =
     (if i < length data then
        if data ! i = comma \<or> data ! i = newline then (parsedColumn, i)
        else parseColumn_unquoted data (i + 1) (parsedColumn @ [data ! i])
      else (parsedColumn, length data))"
  by pat_completeness auto
termination
  by (relation "measure (\<lambda>(data, i, parsedColumn). length data - i)") auto

declare parseColumn_unquoted.simps [simp del]

definition parseColumn :: "string \<Rightarrow> nat \<Rightarrow> string \<times> nat" where
  "parseColumn data index =
     (if char_at data index = Some dquote
      then parseColumn_quoted data (index + 1) []
      else parseColumn_unquoted data index [])"

text \<open>
  The \<open>while(true)\<close> of \<open>parseRow\<close>. The switch has three cases and no default: on any
  other character the loop goes round again with the same \<open>index\<close>. A run that never
  returns is \<open>None\<close>.
\<close>

partial_function (option) parseRow_loop ::
  "string \<Rightarrow> nat \<Rightarrow> string list \<Rightarrow> (string list \<times> nat) option" where
  "parseRow_loop data index parsedRow =
     (case parseColumn data index of (parsedColumn, endIndex) \<Rightarrow>
        if char_at data endIndex = Some comma
          then parseRow_loop data (endIndex + 1) (parsedRow @ [parsedColumn])
        else if char_at data endIndex = None \<or> char_at data endIndex = Some newline
          then Some (if parsedColumn \<noteq> [] then parsedRow @ [parsedColumn] else parsedRow,
                     endIndex)
        else parseRow_loop data index parsedRow)"

declare parseRow_loop.simps [code]

definition parseRow :: "string \<Rightarrow> nat \<Rightarrow> (string list \<times> nat) option" where
  "parseRow data index = parseRow_loop data index []"

text \<open>
  The loop of the callback of \<open>getDataFrom\<close> over the rows after the header:
  \<open>Inl\<close> is the rejection, \<open>Inr\<close> the rows read.
\<close>

partial_function (option) getDataFrom_loop ::
  "string \<Rightarrow> string list \<Rightarrow> nat \<Rightarrow> string list list \<Rightarrow> (Error + string list list) option"
  where
  "getDataFrom_loop content columns i rows =
     (if i \<noteq> length content then
        Option.bind (parseRow content (i + 1)) (\<lambda>(parsedRow, endIndex).
          if length parsedRow \<noteq> length columns
          then Some (Inl (row_length_error (length rows + 1) (length parsedRow) (length columns)))
          else getDataFrom_loop content columns endIndex (rows @ [parsedRow]))
      else Some (Inr rows))"

declare getDataFrom_loop.simps [code]

text \<open>
  The parse of a text that has been read: the header row, then the other rows.
  \<open>Inr (columns, rows)\<close> is what is stored on success.
\<close>

definition parse :: "string \<Rightarrow> (Error + string list \<times> string list list) option" where
  "parse content =
     Option.bind (parseRow content 0) (\<lambda>(columns, i).
       Option.bind (getDataFrom_loop content columns i []) (\<lambda>r.
         case r of Inl e \<Rightarrow> Some (Inl e) | Inr rows \<Rightarrow> Some (Inr (columns, rows))))"

text \<open>
  \<open>getDataFrom\<close> on the outcome of \<open>fs.readFile\<close> (\<open>Inl\<close>: the message of its error,
  \<open>Inr\<close>: the content). The result is the rejection, if any, and the object afterwards;
  the fields are assigned only after the last row.
\<close>

definition getDataFrom :: "Table \<Rightarrow> string \<Rightarrow> string + string \<Rightarrow> (Error option \<times> Table) option"
  where
  "getDataFrom this filename read =
     (case read of
        Inl err \<Rightarrow>
          Some (Some \<lparr> e_type = CannotAccessFile,
                        e_description =
                          Some (''An error happened while trying to read file '' @ filename),
                        e_data = Some err,
                        e_dataDescription = Some ''The error'' \<rparr>, this)
      | Inr content \<Rightarrow>
          Option.bind (parse content) (\<lambda>r.
            case r of
              Inl e \<Rightarrow> Some (Some e, this)
            | Inr (columns, rows) \<Rightarrow> Some (None, this\<lparr>t_columns := columns, t_data := rows\<rparr>)))"

text \<open>\<open>new Table(filename, callbackFn)\<close>: \<open>getDataFrom\<close> on the new object.\<close>

definition new_Table_from :: "string \<Rightarrow> string + string \<Rightarrow> (Error option \<times> Table) option" where
  "new_Table_from filename read = getDataFrom new_object filename read"

section \<open>Arrays in a store: \<open>cloneArray\<close> and the getters\<close>

text \<open>
  Above, a table holds values. What the getters add is a copy, which only shows where
  arrays are shared: here an array is an address in a store, and an element of an array is
  a string or the address of another array (\<open>element instanceof Array\<close>). Addresses are
  given out in order; \<open>next_free\<close> is the first one not yet in use.
\<close>

datatype val = Str string | Ref nat

record store =
  arrays :: "nat \<Rightarrow> val list"
  next_free :: nat

text \<open>\<open>let clonedArray = []\<close> and \<open>clonedArray.push(v)\<close>.\<close>

definition new_array :: "store \<Rightarrow> store \<times> nat" where
  "new_array h =
     (h\<lparr>arrays := (arrays h)(next_free h := []), next_free := Suc (next_free h)\<rparr>, next_free h)"

definition push :: "store \<Rightarrow> nat \<Rightarrow> val \<Rightarrow> store" where
  "push h a v = h\<lparr>arrays := (arrays h)(a := arrays h a @ [v])\<rparr>"

text \<open>
  The loop of \<open>cloneArray\<close> over the elements, \<open>clone\<close> being the recursive call: an array
  is cloned and its clone pushed, any other element is pushed as it is.
\<close>

fun clone_elements ::
  "(store \<Rightarrow> nat \<Rightarrow> (store \<times> nat) option) \<Rightarrow> val list \<Rightarrow> nat \<Rightarrow> store \<Rightarrow> store option" where
  "clone_elements clone [] clonedArray h = Some h"
| "clone_elements clone (Ref a # elements) clonedArray h =
     (case clone h a of
        None \<Rightarrow> None
      | Some (h', a') \<Rightarrow> clone_elements clone elements clonedArray (push h' clonedArray (Ref a')))"
| "clone_elements clone (Str s # elements) clonedArray h =
     clone_elements clone elements clonedArray (push h clonedArray (Str s))"

text \<open>
  \<open>cloneArray\<close> recurses as deep as the arrays are nested, and for ever on an array that
  contains itself: \<open>depth\<close> bounds the nesting of the calls, and \<open>None\<close> is a recursion that
  goes beyond it. The elements are those of \<open>array\<close> at the call: the loop only writes to
  arrays made after it.
\<close>

fun cloneArray :: "nat \<Rightarrow> store \<Rightarrow> nat \<Rightarrow> (store \<times> nat) option" where
  "cloneArray 0 h array = None"
| "cloneArray (Suc depth) h array =
     (case new_array h of (h0, clonedArray) \<Rightarrow>
        (case clone_elements (cloneArray depth) (arrays h array) clonedArray h0 of
           None \<Rightarrow> None
         | Some h' \<Rightarrow> Some (h', clonedArray)))"

text \<open>The object with its two private fields, each the address of an array.\<close>

record Table_object =
  o_columns :: nat
  o_data :: nat

text \<open>The getters \<open>data\<close> and \<open>columns\<close>: the new store and the address returned.\<close>

definition get_data :: "nat \<Rightarrow> store \<Rightarrow> Table_object \<Rightarrow> (store \<times> nat) option" where
  "get_data depth h this = cloneArray depth h (o_data this)"

definition get_columns :: "nat \<Rightarrow> store \<Rightarrow> Table_object \<Rightarrow> (store \<times> nat) option" where
  "get_columns depth h this = cloneArray depth h (o_columns this)"


subsection \<open>The setter and the constructor on the store\<close>

text \<open>
  In the first part the setter is given the rows as a value. What it is given in the code
  is an array of the caller, and \<open>this._data = data\<close> stores that very array: here the
  setter and the constructor take addresses and store them. The property initialisers make
  two new empty arrays.
\<close>

definition store_new_object :: "store \<Rightarrow> store \<times> Table_object" where
  "store_new_object h =
     (case new_array h of (h1, columns) \<Rightarrow>
        (case new_array h1 of (h2, data) \<Rightarrow> (h2, \<lparr>o_columns = columns, o_data = data\<rparr>)))"

text \<open>\<open>data[i].length\<close>: of a row that is an array, the number of its elements.\<close>

definition row_length :: "store \<Rightarrow> val \<Rightarrow> nat" where
  "row_length h v = (case v of Ref b \<Rightarrow> length (arrays h b) | Str s \<Rightarrow> length s)"

function store_check_rows :: "store \<Rightarrow> nat \<Rightarrow> nat \<Rightarrow> nat \<Rightarrow> Error option" where
  "store_check_rows h columns data i =
     (if i < length (arrays h data) then
        if row_length h (arrays h data ! i) \<noteq> length (arrays h columns)
        then Some (row_length_error (i + 1) (row_length h (arrays h data ! i))
                     (length (arrays h columns)))
        else store_check_rows h columns data (i + 1)
      else None)"
  by pat_completeness auto
termination
  by (relation "measure (\<lambda>(h, columns, data, i). length (arrays h data) - i)") auto

declare store_check_rows.simps [simp del]

text \<open>The setter of \<open>data\<close>: after the loop, the field is the address it was given.\<close>

definition store_set_data :: "store \<Rightarrow> Table_object \<Rightarrow> nat \<Rightarrow> Error option \<times> Table_object" where
  "store_set_data h this data =
     (case store_check_rows h (o_columns this) data 0 of
        Some e \<Rightarrow> (Some e, this)
      | None \<Rightarrow> (None, this\<lparr>o_data := data\<rparr>))"

definition store_set_columns :: "Table_object \<Rightarrow> nat \<Rightarrow> Table_object" where
  "store_set_columns this columns = this\<lparr>o_columns := columns\<rparr>"

text \<open>
  \<open>new Table(columns, data)\<close>, the second argument being optional (\<open>second || []\<close> is a
  new array when it is absent): the store afterwards, and the error thrown or the object.
\<close>

definition store_new_Table :: "store \<Rightarrow> nat \<Rightarrow> nat option \<Rightarrow> store \<times> (Error + Table_object)" where
  "store_new_Table h columns second =
     (case store_new_object h of (h1, this) \<Rightarrow>
        (case (case second of Some data \<Rightarrow> (h1, data) | None \<Rightarrow> new_array h1) of (h2, data) \<Rightarrow>
           (case store_set_data h2 (store_set_columns this columns) data of
              (Some e, this') \<Rightarrow> (h2, Inl e)
            | (None, this') \<Rightarrow> (h2, Inr this'))))"
section \<open>Notions for the statements\<close>

text \<open>
  The definitions of this section are not taken from the code. They say in closed form
  what the loops above are proved to compute, and name the properties that the statements
  below are about.
\<close>

text \<open>The pieces of \<open>xs\<close> with \<open>sep\<close> between two neighbours.\<close>

fun joined :: "'a list \<Rightarrow> 'a list list \<Rightarrow> 'a list" where
  "joined sep [] = []"
| "joined sep [x] = x"
| "joined sep (x # y # ys) = x @ sep @ joined sep (y # ys)"

text \<open>
  A field is wrapped in double quotes if it contains a comma, a newline, or begins with a
  double quote; inside the quotes every double quote is doubled.
\<close>

definition needs_quotes :: "string \<Rightarrow> bool" where
  "needs_quotes str = (comma \<in> set str \<or> newline \<in> set str \<or> take 1 str = [dquote])"

definition doubled :: "string \<Rightarrow> string" where
  "doubled str = concat (map (\<lambda>c. if c = dquote then [dquote, dquote] else [c]) str)"

definition encode_field :: "string \<Rightarrow> string" where
  "encode_field str = (if needs_quotes str then [dquote] @ doubled str @ [dquote] else str)"

definition encode_row :: "string list \<Rightarrow> string" where
  "encode_row row = joined [comma] (map encode_field row)"

text \<open>The suppression of an empty last field, and the rows it leaves as they are.\<close>

definition drop_empty_end :: "string list \<Rightarrow> string list" where
  "drop_empty_end row = (if row \<noteq> [] \<and> last row = [] then butlast row else row)"

definition no_empty_end :: "string list \<Rightarrow> bool" where
  "no_empty_end row = (row = [] \<or> last row \<noteq> [])"

text \<open>
  The position \<open>index\<close> of \<open>data\<close> where \<open>parseRow\<close> cannot go on: the field read there
  ends before a character that is no comma and no newline.
\<close>

definition stuck :: "string \<Rightarrow> nat \<Rightarrow> bool" where
  "stuck data index =
     (case parseColumn data index of (parsedColumn, endIndex) \<Rightarrow>
        char_at data endIndex \<noteq> Some comma \<and> char_at data endIndex \<noteq> None
          \<and> char_at data endIndex \<noteq> Some newline)"

text \<open>
  The fields of the row that begins at \<open>index\<close>, as \<open>parseColumn\<close> reads them one after
  the other, each but the last followed by a comma: what \<open>parseRow\<close> reads, the test that an
  empty last field is not pushed left aside. A field never ends before the index where it
  begins (lemma \<open>raw_row_unfold\<close> below); the test \<open>index \<le> endIndex\<close> only makes the
  recursion structural.
\<close>

function raw_row :: "string \<Rightarrow> nat \<Rightarrow> string list" where
  "raw_row data index =
     (case parseColumn data index of (parsedColumn, endIndex) \<Rightarrow>
        if index \<le> endIndex \<and> char_at data endIndex = Some comma
        then parsedColumn # raw_row data (endIndex + 1)
        else [parsedColumn])"
  by pat_completeness auto
termination
  by (relation "measure (\<lambda>(data, index). length data - index)")
    (auto simp: char_at_def split: if_splits)

declare raw_row.simps [simp del]

text \<open>
  The index of the double quote that closes a quoted field whose content begins at \<open>i\<close>:
  the first double quote from \<open>i\<close> on that is not the first of two in a row, and at the end
  of the text the last character if it is a double quote. \<open>None\<close>: the field is not closed.
\<close>

function closing_quote :: "string \<Rightarrow> nat \<Rightarrow> nat option" where
  "closing_quote data i =
     (if i + 1 < length data then
        if data ! i \<noteq> dquote then closing_quote data (i + 1)
        else if data ! (i + 1) = dquote then closing_quote data (i + 2)
        else Some i
      else if i + 1 = length data \<and> data ! i = dquote then Some i
      else None)"
  by pat_completeness auto
termination
  by (relation "measure (\<lambda>(data, i). length data - i)") auto

declare closing_quote.simps [simp del]

text \<open>The field that begins at \<open>index\<close> is a quoted field that is never closed.\<close>

definition unclosed :: "string \<Rightarrow> nat \<Rightarrow> bool" where
  "unclosed data index =
     (char_at data index = Some dquote \<and> closing_quote data (index + 1) = None)"

text \<open>
  The indices where the fields of the text begin, from the field at \<open>index\<close> on, rows
  after rows: a field begins after the comma or the newline that ends the field before.
\<close>

function field_starts :: "string \<Rightarrow> nat \<Rightarrow> nat list" where
  "field_starts data index =
     (case parseColumn data index of (parsedColumn, endIndex) \<Rightarrow>
        if index \<le> endIndex
           \<and> (char_at data endIndex = Some comma \<or> char_at data endIndex = Some newline)
        then index # field_starts data (endIndex + 1)
        else [index])"
  by pat_completeness auto
termination
  by (relation "measure (\<lambda>(data, index). length data - index)")
    (auto simp: char_at_def split: if_splits)

declare field_starts.simps [simp del]

text \<open>The last field of the text is a quoted field left unclosed at the end of the text.\<close>

definition last_field_unclosed :: "string \<Rightarrow> bool" where
  "last_field_unclosed data = unclosed data (last (field_starts data 0))"

text \<open>No field from the one at \<open>i\<close> on is left unclosed.\<close>

definition all_closed :: "string \<Rightarrow> nat \<Rightarrow> bool" where
  "all_closed T i = list_all (\<lambda>j. \<not> unclosed T j) (field_starts T i)"
text \<open>
  Row \<open>j\<close>, counted from zero, is the first row of \<open>rows\<close> whose length is not \<open>n\<close>.
\<close>

definition first_bad_row :: "nat \<Rightarrow> string list list \<Rightarrow> nat \<Rightarrow> bool" where
  "first_bad_row n rows j =
     (j < length rows \<and> length (rows ! j) \<noteq> n \<and> list_all (\<lambda>r. length r = n) (take j rows))"

text \<open>
  The run of the loop of \<open>getDataFrom\<close> over a text, its check left aside: started at the
  index \<open>i0\<close> where the header ends, it stands at the index \<open>i\<close> after having read \<open>rows\<close>,
  one \<open>parseRow\<close> after the other.
\<close>

inductive rows_read :: "string \<Rightarrow> nat \<Rightarrow> nat \<Rightarrow> string list list \<Rightarrow> bool"
  for content :: string and i0 :: nat where
  start: "rows_read content i0 i0 []"
| next_row: "rows_read content i0 i rows \<Longrightarrow> i \<noteq> length content
     \<Longrightarrow> parseRow content (i + 1) = Some (row, e) \<Longrightarrow> rows_read content i0 e (rows @ [row])"

text \<open>
  Reading a decimal numeral back: the digits, and the number that a string of digits
  denotes.
\<close>

definition is_digit :: "char \<Rightarrow> bool" where
  "is_digit c = (48 \<le> (of_char c :: nat) \<and> (of_char c :: nat) < 58)"

definition number_of :: "string \<Rightarrow> nat" where
  "number_of s = foldl (\<lambda>a c. 10 * a + (of_char c - 48)) 0 s"

text \<open>
  What an array of the store holds: the strings \<open>strs\<close>; the rows \<open>rows\<close>, each in an
  array of its own.
\<close>

definition is_strings :: "store \<Rightarrow> nat \<Rightarrow> string list \<Rightarrow> bool" where
  "is_strings h a strs = (a < next_free h \<and> arrays h a = map Str strs)"

definition is_row_ref :: "store \<Rightarrow> val \<Rightarrow> string list \<Rightarrow> bool" where
  "is_row_ref h v row = (case v of Ref b \<Rightarrow> is_strings h b row | Str s \<Rightarrow> False)"

definition is_rows :: "store \<Rightarrow> nat \<Rightarrow> string list list \<Rightarrow> bool" where
  "is_rows h a rows = (a < next_free h \<and> list_all2 (is_row_ref h) (arrays h a) rows)"

text \<open>
  A caller that changes an array it holds (an assignment to an element, a \<open>push\<close>, a
  \<open>splice\<close>) gives the array at this address new elements.
\<close>

definition write_array :: "store \<Rightarrow> nat \<Rightarrow> val list \<Rightarrow> store" where
  "write_array h a elements = h\<lparr>arrays := (arrays h)(a := elements)\<rparr>"

text \<open>
  An element that is no array of \<open>h\<close>; a store in which the arrays of \<open>h\<close> are what they
  were in \<open>h\<close>.
\<close>

definition new_in :: "store \<Rightarrow> val \<Rightarrow> bool" where
  "new_in h v = (case v of Ref b \<Rightarrow> next_free h \<le> b | Str s \<Rightarrow> True)"

definition same_old :: "store \<Rightarrow> store \<Rightarrow> bool" where
  "same_old h h' = (next_free h \<le> next_free h' \<and> (\<forall>a < next_free h. arrays h' a = arrays h a))"

text \<open>A store with the columns \<open>a,b\<close> at address 0 and two rows at address 1.\<close>

definition example_store :: store where
  "example_store =
     \<lparr>arrays = (\<lambda>a. [])(0 := [Str ''a'', Str ''b''], 1 := [Ref 2, Ref 3],
         2 := [Str ''1'', Str ''2''], 3 := [Str ''3'', Str ''4'']),
      next_free = 4\<rparr>"


text \<open>
  The invariant of the table, of the object in the store: every row has as many fields as
  there are columns.
\<close>

definition store_shape_ok :: "store \<Rightarrow> Table_object \<Rightarrow> bool" where
  "store_shape_ok h this =
     list_all (\<lambda>row. row_length h row = length (arrays h (o_columns this)))
       (arrays h (o_data this))"
section \<open>Properties of the loops\<close>

lemma joined_snoc: "xs \<noteq> [] \<Longrightarrow> joined sep (xs @ [x]) = joined sep xs @ sep @ x"
  by (induction sep xs rule: joined.induct) auto

lemma fold_convert_step:
  "fold convert_step str (nq, ps) =
     (nq \<or> comma \<in> set str \<or> newline \<in> set str, ps @ doubled str)"
  by (induction str arbitrary: nq ps) (auto simp: convert_step_def doubled_def)

lemma fold_nth_plain: "fold (\<lambda>k. f (xs ! k)) [0..<length xs] s = fold f xs s"
proof (induction xs arbitrary: s rule: rev_induct)
  case Nil
  show ?case by simp
next
  case (snoc x xs)
  have "fold (\<lambda>k. f ((xs @ [x]) ! k)) [0..<length xs] s = fold (\<lambda>k. f (xs ! k)) [0..<length xs] s"
    by (rule fold_cong) (auto simp: nth_append)
  then show ?case using snoc by simp
qed

lemma char_at_0: "(char_at str 0 = Some c) = (take 1 str = [c])"
  by (cases str) (auto simp: char_at_def)

lemma convertToproperStr_eq: "convertToproperStr str = encode_field str"
  unfolding convertToproperStr_def encode_field_def needs_quotes_def
  by (auto simp: fold_nth_plain fold_convert_step char_at_0)

lemma append_row_snoc:
  "append_row str (row @ [x]) =
     append_row str row @ (if row \<noteq> [] then [comma] else []) @ convertToproperStr x"
proof -
  have "fold (\<lambda>j s. s @ (if j \<noteq> 0 then [comma] else []) @ convertToproperStr ((row @ [x]) ! j))
          [0..<length row] str
      = fold (\<lambda>j s. s @ (if j \<noteq> 0 then [comma] else []) @ convertToproperStr (row ! j))
          [0..<length row] str"
    by (rule fold_cong) (auto simp: nth_append)
  then show ?thesis by (simp add: append_row_def)
qed

lemma append_row_eq: "append_row str row = str @ joined [comma] (map encode_field row)"
proof (induction row rule: rev_induct)
  case Nil
  show ?case by (simp add: append_row_def)
next
  case (snoc x xs)
  then show ?case
    using append_row_snoc [of str xs x]
    by (cases "xs = []") (simp_all add: joined_snoc convertToproperStr_eq)
qed

lemma rows_fold_snoc:
  "fold (\<lambda>i s. append_row (s @ (if i \<noteq> 0 then [newline] else [])) ((rows @ [r]) ! i))
        [0..<length (rows @ [r])] s0
   = fold (\<lambda>i s. append_row (s @ (if i \<noteq> 0 then [newline] else [])) (rows ! i))
        [0..<length rows] s0 @ (if rows \<noteq> [] then [newline] else []) @ encode_row r"
proof -
  have "fold (\<lambda>i s. append_row (s @ (if i \<noteq> 0 then [newline] else [])) ((rows @ [r]) ! i))
          [0..<length rows] s0
      = fold (\<lambda>i s. append_row (s @ (if i \<noteq> 0 then [newline] else [])) (rows ! i))
          [0..<length rows] s0"
    by (rule fold_cong) (auto simp: nth_append)
  then show ?thesis by (simp add: append_row_eq encode_row_def)
qed

lemma rows_fold_eq:
  "fold (\<lambda>i s. append_row (s @ (if i \<noteq> 0 then [newline] else [])) (rows ! i))
        [0..<length rows] s0 = s0 @ joined [newline] (map encode_row rows)"
proof (induction rows rule: rev_induct)
  case Nil
  show ?case by simp
next
  case (snoc r rows)
  show ?case
    unfolding rows_fold_snoc snoc
    by (cases "rows = []") (simp_all add: joined_snoc)
qed

lemma toString_eq:
  "toString this = joined [newline] (map encode_row (t_columns this # t_data this))"
proof -
  have "toString this =
      (if length (t_data this) = 0 then append_row [] (t_columns this)
       else (append_row [] (t_columns this) @ [newline])
              @ joined [newline] (map encode_row (t_data this)))"
    unfolding toString_def Let_def rows_fold_eq ..
  then show ?thesis
    by (cases "t_data this") (simp_all add: append_row_eq encode_row_def)
qed

lemma char_at_append_length [simp]:
  "char_at (pre @ rest) (length pre) = (case rest of [] \<Rightarrow> None | c # cs \<Rightarrow> Some c)"
  by (cases rest) (simp_all add: char_at_def)

lemma char_at_length [simp]: "char_at s (length s) = None"
  by (simp add: char_at_def)

lemma parseColumn_quoted_doubled:
  assumes "rest = [] \<or> hd rest \<noteq> dquote"
  shows "parseColumn_quoted (pre @ doubled f @ dquote # rest) (length pre) acc
           = (acc @ f, length pre + length (doubled f) + 1)"
  using assms
proof (induction f arbitrary: pre acc)
  case Nil
  then show ?case
    by (cases rest) (simp_all add: parseColumn_quoted.simps [of _ "length pre"] doubled_def nth_append)
next
  case (Cons x xs)
  show ?case
  proof (cases "x = dquote")
    case True
    have "parseColumn_quoted ((pre @ [dquote, dquote]) @ doubled xs @ dquote # rest)
            (length (pre @ [dquote, dquote])) (acc @ [dquote])
          = ((acc @ [dquote]) @ xs, length (pre @ [dquote, dquote]) + length (doubled xs) + 1)"
      using Cons.prems by (rule Cons.IH)
    then show ?thesis using True
      by (simp add: parseColumn_quoted.simps [of _ "length pre"] doubled_def nth_append)
  next
    case False
    have "parseColumn_quoted ((pre @ [x]) @ doubled xs @ dquote # rest)
            (length (pre @ [x])) (acc @ [x])
          = ((acc @ [x]) @ xs, length (pre @ [x]) + length (doubled xs) + 1)"
      using Cons.prems by (rule Cons.IH)
    then show ?thesis using False
      by (simp add: parseColumn_quoted.simps [of _ "length pre"] doubled_def nth_append)
  qed
qed

lemma parseColumn_unquoted_plain:
  assumes "comma \<notin> set f" "newline \<notin> set f" "rest = [] \<or> hd rest = comma \<or> hd rest = newline"
  shows "parseColumn_unquoted (pre @ f @ rest) (length pre) acc = (acc @ f, length pre + length f)"
  using assms
proof (induction f arbitrary: pre acc)
  case Nil
  then show ?case
    by (cases rest) (auto simp: parseColumn_unquoted.simps [of _ "length pre"] nth_append)
next
  case (Cons x xs)
  have "parseColumn_unquoted ((pre @ [x]) @ xs @ rest) (length (pre @ [x])) (acc @ [x])
          = ((acc @ [x]) @ xs, length (pre @ [x]) + length xs)"
    using Cons.prems by (intro Cons.IH) auto
  then show ?case using Cons.prems
    by (auto simp: parseColumn_unquoted.simps [of _ "length pre"] nth_append)
qed

lemma parseColumn_encode_field:
  assumes "rest = [] \<or> hd rest = comma \<or> hd rest = newline"
  shows "parseColumn (pre @ encode_field f @ rest) (length pre)
           = (f, length pre + length (encode_field f))"
proof (cases "needs_quotes f")
  case True
  have "rest = [] \<or> hd rest \<noteq> dquote" using assms by auto
  then have "parseColumn_quoted ((pre @ [dquote]) @ doubled f @ dquote # rest)
          (length (pre @ [dquote])) [] = ([] @ f, length (pre @ [dquote]) + length (doubled f) + 1)"
    by (rule parseColumn_quoted_doubled)
  then show ?thesis using True
    by (simp add: parseColumn_def encode_field_def)
next
  case False
  then have f: "comma \<notin> set f" "newline \<notin> set f" "take 1 f \<noteq> [dquote]"
    by (auto simp: needs_quotes_def)
  have "char_at (pre @ f @ rest) (length pre) \<noteq> Some dquote"
    using f(3) assms by (cases f; cases rest) auto
  then show ?thesis using False parseColumn_unquoted_plain [OF f(1,2) assms, of pre "[]"]
    by (simp add: parseColumn_def encode_field_def)
qed

lemma drop_empty_end_id: "no_empty_end row \<Longrightarrow> drop_empty_end row = row"
  by (auto simp: no_empty_end_def drop_empty_end_def)

lemma drop_empty_end_snoc [simp]: "drop_empty_end (row @ [[]]) = row"
  by (simp add: drop_empty_end_def)

lemma char_at_after:
  "char_at (pre @ s @ rest) (length pre + length s) = (case rest of [] \<Rightarrow> None | c # cs \<Rightarrow> Some c)"
  using char_at_append_length [of "pre @ s" rest] by simp

lemma parseRow_loop_comma:
  assumes "parseColumn data index = (col, e)" "char_at data e = Some comma"
  shows "parseRow_loop data index row = parseRow_loop data (e + 1) (row @ [col])"
  by (subst parseRow_loop.simps) (simp add: assms)

lemma parseRow_loop_end:
  assumes "parseColumn data index = (col, e)"
    and "char_at data e = None \<or> char_at data e = Some newline"
  shows "parseRow_loop data index row = Some (if col \<noteq> [] then row @ [col] else row, e)"
  using assms(2) by (subst parseRow_loop.simps) (auto simp: assms(1))

lemma getDataFrom_loop_end:
  "getDataFrom_loop content columns (length content) rows = Some (Inr rows)"
  by (subst getDataFrom_loop.simps) simp

lemma getDataFrom_loop_step:
  assumes "i \<noteq> length content" "parseRow content (i + 1) = Some (row, e)"
  shows "getDataFrom_loop content columns i rows =
     (if length row \<noteq> length columns
      then Some (Inl (row_length_error (length rows + 1) (length row) (length columns)))
      else getDataFrom_loop content columns e (rows @ [row]))"
  using assms by (subst getDataFrom_loop.simps) simp

lemma parseRow_loop_encode_row:
  assumes "rest = [] \<or> hd rest = newline"
  shows "parseRow_loop (pre @ encode_row row @ rest) (length pre) acc
           = Some (acc @ drop_empty_end row, length pre + length (encode_row row))"
  using assms
proof (induction "[comma]" "map encode_field row" arbitrary: row pre acc rule: joined.induct)
  case 1
  then have row: "row = []" by simp
  have "parseColumn (pre @ encode_field [] @ rest) (length pre) = ([], length pre + length (encode_field []))"
    using 1 by (intro parseColumn_encode_field) auto
  then have "parseColumn (pre @ rest) (length pre) = ([], length pre)"
    by (simp add: encode_field_def needs_quotes_def)
  then have "parseRow_loop (pre @ rest) (length pre) acc = Some (acc, length pre)"
  proof (rule parseRow_loop_end [where col = "[]" and row = acc, simplified])
    show "char_at (pre @ rest) (length pre) = None \<or> char_at (pre @ rest) (length pre) = Some newline"
      using 1(2) by (cases rest) simp_all
  qed
  then show ?case using row by (simp add: encode_row_def drop_empty_end_def)
next
  case (2 e)
  then obtain x where row: "row = [x]" by auto
  have "parseColumn (pre @ encode_field x @ rest) (length pre) = (x, length pre + length (encode_field x))"
    using 2 by (intro parseColumn_encode_field) auto
  then have "parseRow_loop (pre @ encode_field x @ rest) (length pre) acc
      = Some (if x \<noteq> [] then acc @ [x] else acc, length pre + length (encode_field x))"
  proof (rule parseRow_loop_end)
    show "char_at (pre @ encode_field x @ rest) (length pre + length (encode_field x)) = None
        \<or> char_at (pre @ encode_field x @ rest) (length pre + length (encode_field x)) = Some newline"
      using 2(2) by (cases rest) (simp_all add: char_at_def nth_append)
  qed
  then show ?case using row by (simp add: encode_row_def drop_empty_end_def)
next
  case (3 e1 e2 es)
  then obtain x row' where row: "row = x # row'" "e1 = encode_field x" "e2 # es = map encode_field row'"
    by auto
  then have ne: "row' \<noteq> []" by auto
  have pc: "parseColumn (pre @ encode_field x @ (comma # encode_row row' @ rest)) (length pre)
         = (x, length pre + length (encode_field x))"
    by (intro parseColumn_encode_field) auto
  have ih: "parseRow_loop ((pre @ encode_field x @ [comma]) @ encode_row row' @ rest)
          (length (pre @ encode_field x @ [comma])) (acc @ [x])
        = Some ((acc @ [x]) @ drop_empty_end row',
                length (pre @ encode_field x @ [comma]) + length (encode_row row'))"
    using row 3(3) by (intro 3(1)) auto
  have er: "encode_row row = encode_field x @ comma # encode_row row'"
    using row 3(2) by (cases row') (auto simp: encode_row_def)
  have de: "drop_empty_end row = x # drop_empty_end row'"
    using row ne by (simp add: drop_empty_end_def)
  have "parseRow_loop (pre @ encode_field x @ (comma # encode_row row' @ rest)) (length pre) acc
      = parseRow_loop (pre @ encode_field x @ (comma # encode_row row' @ rest))
          (length pre + length (encode_field x) + 1) (acc @ [x])"
    using pc by (rule parseRow_loop_comma) (simp add: char_at_after)
  then show ?case
    unfolding er de using ih by simp
qed

lemma getDataFrom_loop_encoded:
  assumes "\<forall>r \<in> set rows. length (drop_empty_end r) = length columns"
  shows "getDataFrom_loop (pre @ concat (map (\<lambda>r. newline # encode_row r) rows)) columns
           (length pre) acc = Some (Inr (acc @ map drop_empty_end rows))"
  using assms
proof (induction rows arbitrary: pre acc)
  case Nil
  show ?case using getDataFrom_loop_end [of pre columns acc] by simp
next
  case (Cons r rs)
  let ?rest = "concat (map (\<lambda>r. newline # encode_row r) rs)"
  have rest: "?rest = [] \<or> hd ?rest = newline" by (cases rs) auto
  have pr: "parseRow ((pre @ [newline]) @ encode_row r @ ?rest) (length (pre @ [newline]))
             = Some ([] @ drop_empty_end r, length (pre @ [newline]) + length (encode_row r))"
    unfolding parseRow_def using rest by (rule parseRow_loop_encode_row)
  have ih: "getDataFrom_loop ((pre @ newline # encode_row r) @ ?rest) columns
              (length (pre @ newline # encode_row r)) (acc @ [drop_empty_end r])
            = Some (Inr ((acc @ [drop_empty_end r]) @ map drop_empty_end rs))"
    using Cons.prems by (intro Cons.IH) auto
  have "length pre \<noteq> length (pre @ newline # encode_row r @ ?rest)" by simp
  moreover have "parseRow (pre @ newline # encode_row r @ ?rest) (length pre + 1)
      = Some (drop_empty_end r, length pre + 1 + length (encode_row r))"
    using pr by simp
  ultimately have "getDataFrom_loop (pre @ newline # encode_row r @ ?rest) columns (length pre) acc
      = (if length (drop_empty_end r) \<noteq> length columns
         then Some (Inl (row_length_error (length acc + 1) (length (drop_empty_end r)) (length columns)))
         else getDataFrom_loop (pre @ newline # encode_row r @ ?rest) columns
                (length pre + 1 + length (encode_row r)) (acc @ [drop_empty_end r]))"
    by (rule getDataFrom_loop_step)
  then show ?case using ih Cons.prems by simp
qed

lemma joined_newline_Cons:
  "joined [newline] (x # xs) = x @ concat (map (\<lambda>r. newline # r) xs)"
  by (induction xs arbitrary: x) auto

lemma toString_concat:
  "toString \<lparr>t_columns = columns, t_data = rows\<rparr>
     = encode_row columns @ concat (map (\<lambda>r. newline # encode_row r) rows)"
  by (simp add: toString_eq joined_newline_Cons comp_def)

lemma parse_header:
  assumes "rest = [] \<or> hd rest = newline"
  shows "parseRow (encode_row columns @ rest) 0
           = Some (drop_empty_end columns, length (encode_row columns))"
  using parseRow_loop_encode_row [OF assms, of "[]" columns "[]"] by (simp add: parseRow_def)

lemma parse_toString_general:
  assumes "\<forall>r \<in> set rows. length (drop_empty_end r) = length (drop_empty_end columns)"
  shows "parse (toString \<lparr>t_columns = columns, t_data = rows\<rparr>)
           = Some (Inr (drop_empty_end columns, map drop_empty_end rows))"
proof -
  let ?rest = "concat (map (\<lambda>r. newline # encode_row r) rows)"
  have rest: "?rest = [] \<or> hd ?rest = newline" by (cases rows) auto
  have pr: "parseRow (encode_row columns @ ?rest) 0
             = Some (drop_empty_end columns, length (encode_row columns))"
    using rest by (rule parse_header)
  have lp: "getDataFrom_loop (encode_row columns @ ?rest) (drop_empty_end columns)
              (length (encode_row columns)) [] = Some (Inr ([] @ map drop_empty_end rows))"
    using assms by (rule getDataFrom_loop_encoded)
  show ?thesis unfolding toString_concat parse_def using pr lp by simp
qed

lemma parse_toString:
  assumes "no_empty_end columns"
    and "\<forall>r \<in> set rows. no_empty_end r \<and> length r = length columns"
  shows "parse (toString \<lparr>t_columns = columns, t_data = rows\<rparr>) = Some (Inr (columns, rows))"
proof -
  have "\<forall>r \<in> set rows. length (drop_empty_end r) = length (drop_empty_end columns)"
    using assms by (simp add: drop_empty_end_id)
  then have "parse (toString \<lparr>t_columns = columns, t_data = rows\<rparr>)
           = Some (Inr (drop_empty_end columns, map drop_empty_end rows))"
    by (rule parse_toString_general)
  moreover have "map drop_empty_end rows = rows"
    using assms(2) by (simp add: drop_empty_end_id map_idI)
  ultimately show ?thesis using assms(1) by (simp add: drop_empty_end_id)
qed

lemma parseRow_loop_no_result:
  assumes "parseRow_loop data index row = Some y"
  shows "\<not> stuck data index"
proof (rule parseRow_loop.raw_induct [OF _ assms, where P = "\<lambda>data index row y. \<not> stuck data index"])
  fix loop :: "string \<Rightarrow> nat \<Rightarrow> string list \<Rightarrow> (string list \<times> nat) option"
  fix data index row y
  assume IH: "\<And>d i r y. loop d i r = Some y \<Longrightarrow> \<not> stuck d i"
    and body: "(case parseColumn data index of
      (parsedColumn, endIndex) \<Rightarrow>
        if char_at data endIndex = Some comma
        then loop data (endIndex + 1) (row @ [parsedColumn])
        else if char_at data endIndex = None \<or>
                char_at data endIndex = Some newline
             then Some
                   (if parsedColumn \<noteq> [] then row @ [parsedColumn]
                    else row,
                    endIndex)
             else loop data index row) = Some y"
  show "\<not> stuck data index"
  proof
    assume s: "stuck data index"
    then have "loop data index row = Some y"
      using body by (auto simp: stuck_def split: prod.splits)
    then have "\<not> stuck data index" by (rule IH)
    then show False using s by simp
  qed
qed

lemma parseRow_loop_diverges:
  assumes "stuck data index"
  shows "parseRow_loop data index row = None"
proof (cases "parseRow_loop data index row")
  case None
  then show ?thesis .
next
  case (Some y)
  from parseRow_loop_no_result [OF this] assms show ?thesis by simp
qed

section \<open>Properties of the setter and of the loop over the rows\<close>

lemma check_rows_None_iff:
  "check_rows columns rows i = None \<longleftrightarrow>
     (\<forall>j. i \<le> j \<and> j < length rows \<longrightarrow> length (rows ! j) = length columns)"
proof (induction columns rows i rule: check_rows.induct)
  case (1 columns rows i)
  show ?case
  proof (cases "i < length rows \<and> length (rows ! i) = length columns")
    case True
    then have "check_rows columns rows i = check_rows columns rows (i + 1)"
      by (subst check_rows.simps) simp
    moreover have "(\<forall>j. i \<le> j \<and> j < length rows \<longrightarrow> length (rows ! j) = length columns)
        \<longleftrightarrow> (\<forall>j. i + 1 \<le> j \<and> j < length rows \<longrightarrow> length (rows ! j) = length columns)"
      using True by (metis Suc_eq_plus1 Suc_leI le_neq_implies_less Suc_leD)
    ultimately show ?thesis using 1 True by simp
  next
    case False
    then show ?thesis by (subst check_rows.simps) auto
  qed
qed

lemma check_rows_Some:
  "check_rows columns rows i = Some e \<Longrightarrow>
     \<exists>j. i \<le> j \<and> j < length rows \<and> length (rows ! j) \<noteq> length columns
       \<and> (\<forall>k. i \<le> k \<and> k < j \<longrightarrow> length (rows ! k) = length columns)
       \<and> e = row_length_error (j + 1) (length (rows ! j)) (length columns)"
proof (induction columns rows i rule: check_rows.induct)
  case (1 columns rows i)
  show ?case
  proof (cases "i < length rows \<and> length (rows ! i) = length columns")
    case True
    then have "check_rows columns rows i = check_rows columns rows (i + 1)"
      by (subst check_rows.simps) simp
    then obtain j where j: "i + 1 \<le> j" "j < length rows" "length (rows ! j) \<noteq> length columns"
      "\<forall>k. i + 1 \<le> k \<and> k < j \<longrightarrow> length (rows ! k) = length columns"
      "e = row_length_error (j + 1) (length (rows ! j)) (length columns)"
      using 1 True by auto
    have "\<forall>k. i \<le> k \<and> k < j \<longrightarrow> length (rows ! k) = length columns"
      using j(4) True by (metis Suc_eq_plus1 Suc_leI le_neq_implies_less)
    then show ?thesis using j by (intro exI [of _ j]) auto
  next
    case False
    then have "i < length rows" "length (rows ! i) \<noteq> length columns"
      "e = row_length_error (i + 1) (length (rows ! i)) (length columns)"
      using 1(2) by (subst (asm) check_rows.simps; auto split: if_splits)+
    then show ?thesis by (intro exI [of _ i]) auto
  qed
qed

lemma set_data_cases:
  "(check_rows (t_columns this) rows 0 = None \<and> set_data this rows = (None, this\<lparr>t_data := rows\<rparr>))
   \<or> (\<exists>e. check_rows (t_columns this) rows 0 = Some e \<and> set_data this rows = (Some e, this))"
  by (cases "check_rows (t_columns this) rows 0") (simp_all add: set_data_def)

lemma set_data_None_iff:
  "fst (set_data this rows) = None \<longleftrightarrow> list_all (\<lambda>r. length r = length (t_columns this)) rows"
  using set_data_cases [of this rows] check_rows_None_iff [of "t_columns this" rows 0]
  by (auto simp: list_all_length)

lemma set_data_Some:
  assumes "fst (set_data this rows) = Some e"
  shows "\<exists>j < length rows. (\<forall>k < j. length (rows ! k) = length (t_columns this))
           \<and> length (rows ! j) \<noteq> length (t_columns this)
           \<and> e = row_length_error (j + 1) (length (rows ! j)) (length (t_columns this))"
proof -
  have "check_rows (t_columns this) rows 0 = Some e"
    using assms set_data_cases [of this rows] by auto
  from check_rows_Some [OF this] show ?thesis by auto
qed

lemma getDataFrom_loop_shape:
  assumes "getDataFrom_loop content columns i rows = Some y"
  shows "\<forall>rs. y = Inr rs \<longrightarrow> list_all (\<lambda>r. length r = length columns) rows
           \<longrightarrow> list_all (\<lambda>r. length r = length columns) rs"
proof (rule getDataFrom_loop.raw_induct [OF _ assms,
    where P = "\<lambda>content columns i rows y. \<forall>rs. y = Inr rs
       \<longrightarrow> list_all (\<lambda>r. length r = length columns) rows
       \<longrightarrow> list_all (\<lambda>r. length r = length columns) rs"])
  fix loop :: "string \<Rightarrow> string list \<Rightarrow> nat \<Rightarrow> string list list \<Rightarrow> (Error + string list list) option"
  fix content columns i rows y
  assume IH: "\<And>c cs j rs y. loop c cs j rs = Some y \<Longrightarrow>
        \<forall>rs'. y = Inr rs' \<longrightarrow> list_all (\<lambda>r. length r = length cs) rs
           \<longrightarrow> list_all (\<lambda>r. length r = length cs) rs'"
    and body: "(if i \<noteq> length content
      then Option.bind (parseRow content (i + 1))
            (\<lambda>(parsedRow, endIndex).
                if length parsedRow \<noteq> length columns
                then Some (Inl (row_length_error (length rows + 1) (length parsedRow) (length columns)))
                else loop content columns endIndex (rows @ [parsedRow]))
      else Some (Inr rows)) = Some y"
  show "\<forall>rs. y = Inr rs \<longrightarrow> list_all (\<lambda>r. length r = length columns) rows
           \<longrightarrow> list_all (\<lambda>r. length r = length columns) rs"
  proof (cases "i = length content")
    case True
    then show ?thesis using body by auto
  next
    case False
    then obtain parsedRow endIndex where pr: "parseRow content (i + 1) = Some (parsedRow, endIndex)"
      and rest: "(if length parsedRow \<noteq> length columns
                then Some (Inl (row_length_error (length rows + 1) (length parsedRow) (length columns)))
                else loop content columns endIndex (rows @ [parsedRow])) = Some y"
      using body by (auto simp: bind_eq_Some_conv)
    show ?thesis
    proof (cases "length parsedRow = length columns")
      case True
      then have "loop content columns endIndex (rows @ [parsedRow]) = Some y" using rest by simp
      from IH [OF this] True show ?thesis by simp
    next
      case False
      then show ?thesis using rest by auto
    qed
  qed
qed

lemma parse_Inr:
  assumes "parse content = Some (Inr (columns, rows))"
  shows "\<exists>i. parseRow content 0 = Some (columns, i)
           \<and> getDataFrom_loop content columns i [] = Some (Inr rows)"
proof -
  obtain cols i r where pr: "parseRow content 0 = Some (cols, i)"
    and lp: "getDataFrom_loop content cols i [] = Some r"
    and r: "(case r of Inl e \<Rightarrow> Some (Inl e) | Inr rows \<Rightarrow> Some (Inr (cols, rows)))
              = Some (Inr (columns, rows))"
    using assms by (auto simp: parse_def bind_eq_Some_conv)
  from r have "cols = columns" "r = Inr rows" by (cases r; simp)+
  then show ?thesis using pr lp by simp
qed

lemma parse_Inl:
  assumes "parse content = Some (Inl e)"
  shows "\<exists>columns i. parseRow content 0 = Some (columns, i)
           \<and> getDataFrom_loop content columns i [] = Some (Inl e)"
proof -
  obtain cols i r where pr: "parseRow content 0 = Some (cols, i)"
    and lp: "getDataFrom_loop content cols i [] = Some r"
    and r: "(case r of Inl e \<Rightarrow> Some (Inl e) | Inr rows \<Rightarrow> Some (Inr (cols, rows)))
              = Some (Inl e)"
    using assms by (auto simp: parse_def bind_eq_Some_conv)
  from r have "r = Inl e" by (cases r) simp_all
  then show ?thesis using pr lp by auto
qed

lemma parse_shape:
  assumes "parse content = Some (Inr (columns, rows))"
  shows "list_all (\<lambda>r. length r = length columns) rows"
proof -
  obtain i where "getDataFrom_loop content columns i [] = Some (Inr rows)"
    using parse_Inr [OF assms] by auto
  from getDataFrom_loop_shape [OF this] show ?thesis by simp
qed

lemma getDataFrom_cases:
  assumes "getDataFrom this filename read = Some (r, this')"
  shows "(\<exists>e. r = Some e \<and> this' = this)
       \<or> (\<exists>content columns rows. r = None \<and> read = Inr content
             \<and> parse content = Some (Inr (columns, rows))
             \<and> this' = this\<lparr>t_columns := columns, t_data := rows\<rparr>)"
proof (cases read)
  case (Inl err)
  then show ?thesis using assms by (auto simp: getDataFrom_def)
next
  case (Inr content)
  then obtain p where p: "parse content = Some p"
    and res: "(case p of Inl e \<Rightarrow> Some (Some e, this)
               | Inr (columns, rows) \<Rightarrow> Some (None, this\<lparr>t_columns := columns, t_data := rows\<rparr>))
              = Some (r, this')"
    using assms by (auto simp: getDataFrom_def bind_eq_Some_conv)
  show ?thesis
  proof (cases p)
    case (Inl e)
    then show ?thesis using res by auto
  next
    case (Inr cr)
    obtain columns rows where "cr = (columns, rows)" by (cases cr)
    then show ?thesis using Inr res p \<open>read = Inr content\<close> by auto
  qed
qed

lemma set_data_first_bad_row:
  assumes "fst (set_data this rows) = Some e"
  shows "\<exists>j. first_bad_row (length (t_columns this)) rows j
           \<and> e = row_length_error (j + 1) (length (rows ! j)) (length (t_columns this))"
proof -
  obtain j where j: "j < length rows" "\<forall>k < j. length (rows ! k) = length (t_columns this)"
    "length (rows ! j) \<noteq> length (t_columns this)"
    "e = row_length_error (j + 1) (length (rows ! j)) (length (t_columns this))"
    using set_data_Some [OF assms] by auto
  have "list_all (\<lambda>r. length r = length (t_columns this)) (take j rows)"
    using j(1,2) by (simp add: list_all_length)
  then show ?thesis using j by (auto simp: first_bad_row_def)
qed

lemma set_data_error_iff:
  "(\<exists>e. fst (set_data this rows) = Some e)
     \<longleftrightarrow> \<not> list_all (\<lambda>r. length r = length (t_columns this)) rows"
  using set_data_None_iff [of this rows] by auto

lemma new_Table_eq:
  "new_Table columns rows =
     (case fst (set_data \<lparr>t_columns = columns, t_data = []\<rparr> rows) of
        Some e \<Rightarrow> Inl e
      | None \<Rightarrow> Inr \<lparr>t_columns = columns, t_data = rows\<rparr>)"
  using set_data_cases [of "\<lparr>t_columns = columns, t_data = []\<rparr>" rows]
  by (auto simp: new_Table_def constructor_body_def set_columns_def new_object_def)

lemma getDataFrom_loop_first_error:
  assumes "getDataFrom_loop content columns i rows = Some y"
  shows "\<forall>i0 err. y = Inl err \<longrightarrow> rows_read content i0 i rows
           \<longrightarrow> list_all (\<lambda>r. length r = length columns) rows
           \<longrightarrow> (\<exists>j rs row e. rows_read content i0 j rs
                  \<and> list_all (\<lambda>r. length r = length columns) rs
                  \<and> j \<noteq> length content \<and> parseRow content (j + 1) = Some (row, e)
                  \<and> length row \<noteq> length columns
                  \<and> err = row_length_error (length rs + 1) (length row) (length columns))"
proof (rule getDataFrom_loop.raw_induct [OF _ assms,
    where P = "\<lambda>content columns i rows y. \<forall>i0 err. y = Inl err \<longrightarrow> rows_read content i0 i rows
           \<longrightarrow> list_all (\<lambda>r. length r = length columns) rows
           \<longrightarrow> (\<exists>j rs row e. rows_read content i0 j rs
                  \<and> list_all (\<lambda>r. length r = length columns) rs
                  \<and> j \<noteq> length content \<and> parseRow content (j + 1) = Some (row, e)
                  \<and> length row \<noteq> length columns
                  \<and> err = row_length_error (length rs + 1) (length row) (length columns))"])
  fix loop :: "string \<Rightarrow> string list \<Rightarrow> nat \<Rightarrow> string list list \<Rightarrow> (Error + string list list) option"
  fix content columns i rows y
  assume IH: "\<And>c cs k rs y. loop c cs k rs = Some y \<Longrightarrow>
        \<forall>i0 err. y = Inl err \<longrightarrow> rows_read c i0 k rs
           \<longrightarrow> list_all (\<lambda>r. length r = length cs) rs
           \<longrightarrow> (\<exists>j rs' row e. rows_read c i0 j rs'
                  \<and> list_all (\<lambda>r. length r = length cs) rs'
                  \<and> j \<noteq> length c \<and> parseRow c (j + 1) = Some (row, e)
                  \<and> length row \<noteq> length cs
                  \<and> err = row_length_error (length rs' + 1) (length row) (length cs))"
    and body: "(if i \<noteq> length content
      then Option.bind (parseRow content (i + 1))
            (\<lambda>(parsedRow, endIndex).
                if length parsedRow \<noteq> length columns
                then Some (Inl (row_length_error (length rows + 1) (length parsedRow) (length columns)))
                else loop content columns endIndex (rows @ [parsedRow]))
      else Some (Inr rows)) = Some y"
  show "\<forall>i0 err. y = Inl err \<longrightarrow> rows_read content i0 i rows
           \<longrightarrow> list_all (\<lambda>r. length r = length columns) rows
           \<longrightarrow> (\<exists>j rs row e. rows_read content i0 j rs
                  \<and> list_all (\<lambda>r. length r = length columns) rs
                  \<and> j \<noteq> length content \<and> parseRow content (j + 1) = Some (row, e)
                  \<and> length row \<noteq> length columns
                  \<and> err = row_length_error (length rs + 1) (length row) (length columns))"
  proof (intro allI impI)
    fix i0 err
    assume y: "y = Inl err" and rr: "rows_read content i0 i rows"
      and ok: "list_all (\<lambda>r. length r = length columns) rows"
    have ne: "i \<noteq> length content" using body y by (auto split: if_splits)
    then obtain parsedRow endIndex where pr: "parseRow content (i + 1) = Some (parsedRow, endIndex)"
      and rest: "(if length parsedRow \<noteq> length columns
                then Some (Inl (row_length_error (length rows + 1) (length parsedRow) (length columns)))
                else loop content columns endIndex (rows @ [parsedRow])) = Some y"
      using body by (auto simp: bind_eq_Some_conv)
    show "\<exists>j rs row e. rows_read content i0 j rs
                  \<and> list_all (\<lambda>r. length r = length columns) rs
                  \<and> j \<noteq> length content \<and> parseRow content (j + 1) = Some (row, e)
                  \<and> length row \<noteq> length columns
                  \<and> err = row_length_error (length rs + 1) (length row) (length columns)"
    proof (cases "length parsedRow = length columns")
      case False
      then have "err = row_length_error (length rows + 1) (length parsedRow) (length columns)"
        using rest y by simp
      then show ?thesis using rr ok ne pr False by blast
    next
      case True
      then have lp: "loop content columns endIndex (rows @ [parsedRow]) = Some y"
        using rest by simp
      have "rows_read content i0 endIndex (rows @ [parsedRow])"
        using rr ne pr by (rule rows_read.next_row)
      moreover have "list_all (\<lambda>r. length r = length columns) (rows @ [parsedRow])"
        using ok True by simp
      ultimately show ?thesis using IH [OF lp] y by blast
    qed
  qed
qed

lemma parse_first_error:
  assumes "parse content = Some (Inl err)"
  shows "\<exists>columns i0 j rs row e. parseRow content 0 = Some (columns, i0)
           \<and> rows_read content i0 j rs
           \<and> list_all (\<lambda>r. length r = length columns) rs
           \<and> j \<noteq> length content \<and> parseRow content (j + 1) = Some (row, e)
           \<and> length row \<noteq> length columns
           \<and> err = row_length_error (length rs + 1) (length row) (length columns)"
proof -
  obtain columns i0 where pr: "parseRow content 0 = Some (columns, i0)"
    and lp: "getDataFrom_loop content columns i0 [] = Some (Inl err)"
    using parse_Inl [OF assms] by auto
  have "rows_read content i0 i0 []" by (rule rows_read.start)
  with getDataFrom_loop_first_error [OF lp] pr show ?thesis by fastforce
qed

lemma new_Table_error_iff:
  "(\<exists>e. new_Table columns rows = Inl e) \<longleftrightarrow> \<not> list_all (\<lambda>r. length r = length columns) rows"
  using set_data_None_iff [of "\<lparr>t_columns = columns, t_data = []\<rparr>" rows]
  by (cases "fst (set_data \<lparr>t_columns = columns, t_data = []\<rparr> rows)") (auto simp: new_Table_eq)

lemma new_Table_first_bad_row:
  assumes "new_Table columns rows = Inl e"
  shows "\<exists>j. first_bad_row (length columns) rows j
           \<and> e = row_length_error (j + 1) (length (rows ! j)) (length columns)"
proof -
  have "fst (set_data \<lparr>t_columns = columns, t_data = []\<rparr> rows) = Some e"
    using assms
    by (cases "fst (set_data \<lparr>t_columns = columns, t_data = []\<rparr> rows)") (auto simp: new_Table_eq)
  from set_data_first_bad_row [OF this] show ?thesis by simp
qed

lemma of_char_digit: "d < 10 \<Longrightarrow> (of_char (char_of (48 + d) :: char) :: nat) = 48 + d"
  by simp

lemma digits_is_digit: "list_all is_digit (digits n)"
proof (induction n rule: digits.induct)
  case (1 n)
  show ?case
  proof (cases "n < 10")
    case True
    then show ?thesis by (subst digits.simps) (simp add: is_digit_def)
  next
    case False
    then have "list_all is_digit (digits (n div 10))" by (rule "1.IH")
    moreover have "is_digit (char_of (48 + n mod 10))"
      by (simp add: is_digit_def of_char_digit)
    ultimately show ?thesis using False by (subst digits.simps) simp
  qed
qed

lemma number_of_digits: "number_of (digits n) = n"
proof (induction n rule: digits.induct)
  case (1 n)
  show ?case
  proof (cases "n < 10")
    case True
    then show ?thesis by (subst digits.simps) (simp add: number_of_def)
  next
    case False
    then have "number_of (digits (n div 10)) = n div 10" by (rule "1.IH")
    then show ?thesis using False
      by (subst digits.simps) (simp add: number_of_def of_char_digit)
  qed
qed

lemma digits_then_other:
  assumes "\<not> is_digit c" "digits m @ c # rest = digits n @ c # rest'"
  shows "m = n \<and> rest = rest'"
proof -
  have tw: "takeWhile is_digit (digits k @ c # r) = digits k" for k r
    using digits_is_digit [of k] assms(1) by (simp add: list_all_iff)
  have "takeWhile is_digit (digits m @ c # rest) = takeWhile is_digit (digits n @ c # rest')"
    using assms(2) by simp
  then have d: "digits m = digits n" by (simp only: tw)
  then have "number_of (digits m) = number_of (digits n)" by simp
  then have "m = n" by (simp only: number_of_digits)
  then show ?thesis using assms(2) by simp
qed

lemma row_length_error_inject:
  "row_length_error a b c = row_length_error a' b' c' \<longleftrightarrow> a = a' \<and> b = b' \<and> c = c'"
proof
  assume "row_length_error a b c = row_length_error a' b' c'"
  then have 1: "digits a @ CHR '' '' # (''does not have the correct amount of columns (it has ''
         @ digits b @ '' instead of '' @ digits c @ '')'')
      = digits a' @ CHR '' '' # (''does not have the correct amount of columns (it has ''
         @ digits b' @ '' instead of '' @ digits c' @ '')'')"
    by (simp add: row_length_error_def)
  have sp: "\<not> is_digit CHR '' ''" and pa: "\<not> is_digit CHR '')''"
    by (simp_all add: is_digit_def)
  from digits_then_other [OF sp 1] have a: "a = a'"
    and 2: "digits b @ CHR '' '' # (''instead of '' @ digits c @ '')'')
          = digits b' @ CHR '' '' # (''instead of '' @ digits c' @ '')'')"
    by simp_all
  from digits_then_other [OF sp 2] have b: "b = b'"
    and 3: "digits c @ CHR '')'' # [] = digits c' @ CHR '')'' # []"
    by simp_all
  from digits_then_other [OF pa 3] have "c = c'" by simp
  then show "a = a' \<and> b = b' \<and> c = c'" using a b by simp
qed simp

lemma rows_read_loop:
  assumes "rows_read content i0 j rs"
  shows "list_all (\<lambda>r. length r = length header) rs \<Longrightarrow>
     getDataFrom_loop content header i0 [] = getDataFrom_loop content header j rs"
  using assms
proof (induction rule: rows_read.induct)
  case start
  show ?case by simp
next
  case (next_row i rows row e)
  have ok: "list_all (\<lambda>r. length r = length header) rows" "length row = length header"
    using next_row.prems by simp_all
  have "getDataFrom_loop content header i rows =
     (if length row \<noteq> length header
      then Some (Inl (row_length_error (length rows + 1) (length row) (length header)))
      else getDataFrom_loop content header e (rows @ [row]))"
    using next_row.hyps(2,3) by (rule getDataFrom_loop_step)
  then show ?case using next_row.IH [OF ok(1)] ok(2) by simp
qed

lemma parse_rejects_first_wrong_row:
  assumes "parseRow content 0 = Some (header, i0)" "rows_read content i0 j rs"
    and "list_all (\<lambda>r. length r = length header) rs"
    and "j \<noteq> length content" "parseRow content (j + 1) = Some (row, i)"
    and "length row \<noteq> length header"
  shows "parse content = Some (Inl (row_length_error (length rs + 1) (length row) (length header)))"
proof -
  have "getDataFrom_loop content header j rs =
     (if length row \<noteq> length header
      then Some (Inl (row_length_error (length rs + 1) (length row) (length header)))
      else getDataFrom_loop content header i (rs @ [row]))"
    using assms(4,5) by (rule getDataFrom_loop_step)
  then have "getDataFrom_loop content header i0 []
      = Some (Inl (row_length_error (length rs + 1) (length row) (length header)))"
    using rows_read_loop [OF assms(2,3)] assms(6) by simp
  then show ?thesis using assms(1) by (simp add: parse_def)
qed

lemma parse_accepts_right_rows:
  assumes "parseRow content 0 = Some (header, i0)" "rows_read content i0 (length content) rs"
    and "list_all (\<lambda>r. length r = length header) rs"
  shows "parse content = Some (Inr (header, rs))"
proof -
  have "getDataFrom_loop content header i0 [] = Some (Inr rs)"
    using rows_read_loop [OF assms(2,3)] getDataFrom_loop_end [of content header rs] by simp
  then show ?thesis using assms(1) by (simp add: parse_def)
qed

lemma getDataFrom_loop_rows_read:
  assumes "getDataFrom_loop content columns i rows = Some y"
  shows "\<forall>i0 rs. y = Inr rs \<longrightarrow> rows_read content i0 i rows
           \<longrightarrow> rows_read content i0 (length content) rs"
proof (rule getDataFrom_loop.raw_induct [OF _ assms,
    where P = "\<lambda>content columns i rows y. \<forall>i0 rs. y = Inr rs \<longrightarrow> rows_read content i0 i rows
           \<longrightarrow> rows_read content i0 (length content) rs"])
  fix loop :: "string \<Rightarrow> string list \<Rightarrow> nat \<Rightarrow> string list list \<Rightarrow> (Error + string list list) option"
  fix content columns i rows y
  assume IH: "\<And>c cs k rs y. loop c cs k rs = Some y \<Longrightarrow>
        \<forall>i0 rs'. y = Inr rs' \<longrightarrow> rows_read c i0 k rs \<longrightarrow> rows_read c i0 (length c) rs'"
    and body: "(if i \<noteq> length content
      then Option.bind (parseRow content (i + 1))
            (\<lambda>(parsedRow, endIndex).
                if length parsedRow \<noteq> length columns
                then Some (Inl (row_length_error (length rows + 1) (length parsedRow) (length columns)))
                else loop content columns endIndex (rows @ [parsedRow]))
      else Some (Inr rows)) = Some y"
  show "\<forall>i0 rs. y = Inr rs \<longrightarrow> rows_read content i0 i rows
           \<longrightarrow> rows_read content i0 (length content) rs"
  proof (intro allI impI)
    fix i0 rs
    assume y: "y = Inr rs" and rr: "rows_read content i0 i rows"
    show "rows_read content i0 (length content) rs"
    proof (cases "i = length content")
      case True
      then show ?thesis using body y rr by simp
    next
      case False
      then obtain parsedRow endIndex where pr: "parseRow content (i + 1) = Some (parsedRow, endIndex)"
        and rest: "(if length parsedRow \<noteq> length columns
                then Some (Inl (row_length_error (length rows + 1) (length parsedRow) (length columns)))
                else loop content columns endIndex (rows @ [parsedRow])) = Some y"
        using body by (auto simp: bind_eq_Some_conv)
      have "length parsedRow = length columns" using rest y by (auto split: if_splits)
      then have lp: "loop content columns endIndex (rows @ [parsedRow]) = Some y"
        using rest by simp
      have "rows_read content i0 endIndex (rows @ [parsedRow])"
        using rr False pr by (rule rows_read.next_row)
      then show ?thesis using IH [OF lp] y by blast
    qed
  qed
qed

lemma parse_rows_read:
  assumes "parse content = Some (Inr (header, rs))"
  shows "\<exists>i0. parseRow content 0 = Some (header, i0)
           \<and> rows_read content i0 (length content) rs
           \<and> list_all (\<lambda>r. length r = length header) rs"
proof -
  obtain i0 where pr: "parseRow content 0 = Some (header, i0)"
    and lp: "getDataFrom_loop content header i0 [] = Some (Inr rs)"
    using parse_Inr [OF assms] by auto
  have "rows_read content i0 (length content) rs"
    using getDataFrom_loop_rows_read [OF lp] rows_read.start [of content i0] by blast
  then show ?thesis using pr parse_shape [OF assms] by blast
qed
section \<open>The fields of a row, and a text followed by a newline\<close>

lemma parseColumn_unquoted_newline:
  "i \<le> length T \<Longrightarrow>
     parseColumn_unquoted (T @ [newline]) i acc = parseColumn_unquoted T i acc"
proof (induction T i acc rule: parseColumn_unquoted.induct)
  case (1 data i acc)
  show ?case
  proof (cases "i < length data")
    case True
    show ?thesis
    proof (cases "data ! i = comma \<or> data ! i = newline")
      case sep: True
      have "parseColumn_unquoted data i acc = (acc, i)"
        using True sep by (subst parseColumn_unquoted.simps) simp
      moreover have "parseColumn_unquoted (data @ [newline]) i acc = (acc, i)"
        using True sep by (subst parseColumn_unquoted.simps) (simp add: nth_append)
      ultimately show ?thesis by simp
    next
      case nosep: False
      have "parseColumn_unquoted data i acc = parseColumn_unquoted data (i + 1) (acc @ [data ! i])"
        using True nosep by (subst parseColumn_unquoted.simps) simp
      moreover have "parseColumn_unquoted (data @ [newline]) i acc
          = parseColumn_unquoted (data @ [newline]) (i + 1) (acc @ [data ! i])"
        using True nosep by (subst parseColumn_unquoted.simps) (simp add: nth_append)
      moreover have "parseColumn_unquoted (data @ [newline]) (i + 1) (acc @ [data ! i])
          = parseColumn_unquoted data (i + 1) (acc @ [data ! i])"
        using True nosep by (intro "1.IH") auto
      ultimately show ?thesis by simp
    qed
  next
    case False
    then have i: "i = length data" using "1.prems" by simp
    have "parseColumn_unquoted data (length data) acc = (acc, length data)"
      by (subst parseColumn_unquoted.simps) simp
    moreover have "parseColumn_unquoted (data @ [newline]) (length data) acc = (acc, length data)"
      by (subst parseColumn_unquoted.simps) simp
    ultimately show ?thesis using i by simp
  qed
qed

lemma parseColumn_unquoted_bounds:
  "i \<le> length T \<Longrightarrow> parseColumn_unquoted T i acc = (col, e) \<Longrightarrow>
     i \<le> e \<and> e \<le> length T \<and> (e < length T \<longrightarrow> T ! e = comma \<or> T ! e = newline)"
proof (induction T i acc rule: parseColumn_unquoted.induct)
  case (1 data i acc)
  show ?case
  proof (cases "i < length data")
    case True
    show ?thesis
    proof (cases "data ! i = comma \<or> data ! i = newline")
      case sep: True
      have "parseColumn_unquoted data i acc = (acc, i)"
        using True sep by (subst parseColumn_unquoted.simps) simp
      then show ?thesis using "1.prems" True sep by auto
    next
      case nosep: False
      have "parseColumn_unquoted data i acc = parseColumn_unquoted data (i + 1) (acc @ [data ! i])"
        using True nosep by (subst parseColumn_unquoted.simps) simp
      then have "parseColumn_unquoted data (i + 1) (acc @ [data ! i]) = (col, e)"
        using "1.prems" by simp
      then have "i + 1 \<le> e \<and> e \<le> length data
          \<and> (e < length data \<longrightarrow> data ! e = comma \<or> data ! e = newline)"
        using True nosep by (intro "1.IH") auto
      then show ?thesis by auto
    qed
  next
    case False
    then have i: "i = length data" using "1.prems" by simp
    have "parseColumn_unquoted data (length data) acc = (acc, length data)"
      by (subst parseColumn_unquoted.simps) simp
    then show ?thesis using i "1.prems" by auto
  qed
qed

lemma parseRow_at_end: "parseRow T (length T) = Some ([], length T)"
proof -
  have "parseColumn_unquoted T (length T) [] = ([], length T)"
    by (subst parseColumn_unquoted.simps) simp
  then have "parseColumn T (length T) = ([], length T)"
    by (simp add: parseColumn_def char_at_def)
  then have "parseRow_loop T (length T) []
      = Some (if [] \<noteq> ([]::string) then [] @ [[]] else [], length T)"
    by (rule parseRow_loop_end) (simp add: char_at_def)
  then show ?thesis by (simp add: parseRow_def)
qed

lemma parseColumn_quoted_bounds:
  "i \<le> length T \<Longrightarrow> parseColumn_quoted T i acc = (col, e) \<Longrightarrow> i \<le> e \<and> e \<le> length T"
proof (induction T i acc rule: parseColumn_quoted.induct)
  case (1 data i acc)
  show ?case
  proof (cases "i + 1 < length data")
    case True
    show ?thesis
    proof (cases "data ! i \<noteq> dquote")
      case a: True
      have "parseColumn_quoted data i acc = parseColumn_quoted data (i + 1) (acc @ [data ! i])"
        using True a by (subst parseColumn_quoted.simps) simp
      then have "i + 1 \<le> e \<and> e \<le> length data"
        using True a "1.prems" by (intro "1.IH"(1)) auto
      then show ?thesis by simp
    next
      case a: False
      show ?thesis
      proof (cases "data ! (i + 1) = dquote")
        case b: True
        have "parseColumn_quoted data i acc = parseColumn_quoted data (i + 2) (acc @ [data ! i])"
          using True a b by (subst parseColumn_quoted.simps) simp
        then have "i + 2 \<le> e \<and> e \<le> length data"
          using True a b "1.prems" by (intro "1.IH"(2)) auto
        then show ?thesis by simp
      next
        case b: False
        have "parseColumn_quoted data i acc = (acc, i + 1)"
          using True a b by (subst parseColumn_quoted.simps) simp
        then show ?thesis using True "1.prems" by auto
      qed
    qed
  next
    case False
    have "parseColumn_quoted data i acc = (acc, length data)"
      using False by (subst parseColumn_quoted.simps) auto
    then show ?thesis using "1.prems" by auto
  qed
qed

lemma parseColumn_bounds:
  assumes "i \<le> length T" "parseColumn T i = (col, e)"
  shows "i \<le> e \<and> e \<le> length T"
proof (cases "char_at T i = Some dquote")
  case True
  then have "i < length T" by (auto simp: char_at_def split: if_splits)
  then have "i + 1 \<le> length T" by simp
  moreover have "parseColumn_quoted T (i + 1) [] = (col, e)"
    using assms(2) True by (simp add: parseColumn_def)
  ultimately have "i + 1 \<le> e \<and> e \<le> length T" by (rule parseColumn_quoted_bounds)
  then show ?thesis by simp
next
  case False
  then have "parseColumn_unquoted T i [] = (col, e)"
    using assms(2) by (simp add: parseColumn_def)
  from parseColumn_unquoted_bounds [OF assms(1) this] show ?thesis by simp
qed

lemma parseColumn_beyond:
  assumes "length T < i"
  shows "parseColumn T i = ([], length T)"
proof -
  have "parseColumn_unquoted T i [] = ([], length T)"
    using assms by (subst parseColumn_unquoted.simps) simp
  then show ?thesis using assms by (simp add: parseColumn_def char_at_def)
qed

lemma raw_row_not_Nil: "raw_row T i \<noteq> []"
  by (subst raw_row.simps) (simp split: prod.splits)

lemma drop_empty_end_Cons: "xs \<noteq> [] \<Longrightarrow> drop_empty_end (x # xs) = x # drop_empty_end xs"
  by (simp add: drop_empty_end_def)

lemma parseRow_loop_raw_row:
  "parseRow_loop T i acc = Some (row, e') \<Longrightarrow> row = acc @ drop_empty_end (raw_row T i)"
proof (induction "length T - i" arbitrary: i acc rule: less_induct)
  case less
  obtain col e where pc: "parseColumn T i = (col, e)" by (cases "parseColumn T i")
  have ie: "i \<le> e" if "char_at T e = Some comma"
  proof (cases "i \<le> length T")
    case True
    then show ?thesis using parseColumn_bounds [OF True pc] by simp
  next
    case False
    then have "e = length T" using pc parseColumn_beyond [of T i] by simp
    then show ?thesis using that by simp
  qed
  show ?case
  proof (cases "char_at T e = Some comma")
    case True
    have e: "e < length T" using True by (auto simp: char_at_def split: if_splits)
    have "parseRow_loop T i acc = parseRow_loop T (e + 1) (acc @ [col])"
      using pc True by (rule parseRow_loop_comma)
    then have "parseRow_loop T (e + 1) (acc @ [col]) = Some (row, e')"
      using less.prems by simp
    moreover have "length T - (e + 1) < length T - i" using e ie [OF True] by simp
    ultimately have "row = (acc @ [col]) @ drop_empty_end (raw_row T (e + 1))"
      by (intro less.hyps)
    moreover have "raw_row T i = col # raw_row T (e + 1)"
      using pc True ie [OF True] by (subst raw_row.simps) simp
    ultimately show ?thesis
      by (simp add: drop_empty_end_Cons raw_row_not_Nil)
  next
    case False
    have rr: "raw_row T i = [col]"
      using pc False by (subst raw_row.simps) simp
    show ?thesis
    proof (cases "char_at T e = None \<or> char_at T e = Some newline")
      case True
      have "parseRow_loop T i acc = Some (if col \<noteq> [] then acc @ [col] else acc, e)"
        using pc True by (rule parseRow_loop_end)
      then show ?thesis using less.prems rr by (auto simp: drop_empty_end_def)
    next
      case other: False
      then have "stuck T i" using pc False by (simp add: stuck_def)
      then have "parseRow_loop T i acc = None" by (rule parseRow_loop_diverges)
      then show ?thesis using less.prems by simp
    qed
  qed
qed

lemma parseColumn_quoted_newline:
  "closing_quote T i = Some k \<Longrightarrow>
     parseColumn_quoted (T @ [newline]) i acc = parseColumn_quoted T i acc"
proof (induction T i acc rule: parseColumn_quoted.induct)
  case (1 data i acc)
  show ?case
  proof (cases "i + 1 < length data")
    case True
    then have n: "(data @ [newline]) ! i = data ! i" "(data @ [newline]) ! (i + 1) = data ! (i + 1)"
      by (simp_all add: nth_append)
    show ?thesis
    proof (cases "data ! i \<noteq> dquote")
      case a: True
      have "closing_quote data (i + 1) = Some k"
        using "1.prems" True a by (subst (asm) closing_quote.simps) simp
      then have "parseColumn_quoted (data @ [newline]) (i + 1) (acc @ [data ! i])
          = parseColumn_quoted data (i + 1) (acc @ [data ! i])"
        using True a by (intro "1.IH"(1)) auto
      moreover have "parseColumn_quoted data i acc
          = parseColumn_quoted data (i + 1) (acc @ [data ! i])"
        using True a by (subst parseColumn_quoted.simps) simp
      moreover have "parseColumn_quoted (data @ [newline]) i acc
          = parseColumn_quoted (data @ [newline]) (i + 1) (acc @ [data ! i])"
        using True a n by (subst parseColumn_quoted.simps) simp
      ultimately show ?thesis by simp
    next
      case a: False
      show ?thesis
      proof (cases "data ! (i + 1) = dquote")
        case b: True
        have "closing_quote data (i + 2) = Some k"
          using "1.prems" True a b by (subst (asm) closing_quote.simps) simp
        then have "parseColumn_quoted (data @ [newline]) (i + 2) (acc @ [data ! i])
            = parseColumn_quoted data (i + 2) (acc @ [data ! i])"
          using True a b by (intro "1.IH"(2)) auto
        moreover have "parseColumn_quoted data i acc
            = parseColumn_quoted data (i + 2) (acc @ [data ! i])"
          using True a b by (subst parseColumn_quoted.simps) simp
        moreover have "parseColumn_quoted (data @ [newline]) i acc
            = parseColumn_quoted (data @ [newline]) (i + 2) (acc @ [data ! i])"
          using True a b n by (subst parseColumn_quoted.simps) simp
        ultimately show ?thesis by simp
      next
        case b: False
        have "parseColumn_quoted data i acc = (acc, i + 1)"
          using True a b by (subst parseColumn_quoted.simps) simp
        moreover have "parseColumn_quoted (data @ [newline]) i acc = (acc, i + 1)"
          using True a b n by (subst parseColumn_quoted.simps) simp
        ultimately show ?thesis by simp
      qed
    qed
  next
    case False
    then have l: "i + 1 = length data" "data ! i = dquote"
      using "1.prems" by (subst (asm) closing_quote.simps; simp split: if_splits)+
    have "parseColumn_quoted data i acc = (acc, length data)"
      using False by (subst parseColumn_quoted.simps) auto
    moreover have "parseColumn_quoted (data @ [newline]) i acc = (acc, i + 1)"
      using l by (subst parseColumn_quoted.simps) (simp add: nth_append)
    ultimately show ?thesis using l by simp
  qed
qed

lemma parseColumn_newline:
  assumes "i \<le> length T" "\<not> unclosed T i"
  shows "parseColumn (T @ [newline]) i = parseColumn T i"
proof (cases "char_at T i = Some dquote")
  case True
  then have i: "i < length T" by (auto simp: char_at_def split: if_splits)
  then have c: "char_at (T @ [newline]) i = Some dquote"
    using True by (simp add: char_at_def nth_append)
  obtain k where "closing_quote T (i + 1) = Some k"
    using assms(2) True by (auto simp: unclosed_def)
  then have "parseColumn_quoted (T @ [newline]) (i + 1) [] = parseColumn_quoted T (i + 1) []"
    by (rule parseColumn_quoted_newline)
  then show ?thesis using True c by (simp add: parseColumn_def)
next
  case False
  have "char_at (T @ [newline]) i \<noteq> Some dquote"
    using False assms(1) by (cases "i < length T") (auto simp: char_at_def nth_append)
  then show ?thesis
    using False assms(1) by (simp add: parseColumn_def parseColumn_unquoted_newline)
qed

lemma all_closed_head: "all_closed T i \<Longrightarrow> \<not> unclosed T i"
  unfolding all_closed_def by (subst (asm) field_starts.simps) (auto split: prod.splits if_splits)

lemma all_closed_next:
  assumes "all_closed T i" "parseColumn T i = (col, e)" "i \<le> e"
    and "char_at T e = Some comma \<or> char_at T e = Some newline"
  shows "all_closed T (e + 1)"
proof -
  have "field_starts T i = i # field_starts T (e + 1)"
    using assms(2,3,4) by (subst field_starts.simps) auto
  then show ?thesis using assms(1) by (simp add: all_closed_def)
qed

lemma parseRow_loop_newline_general:
  "all_closed T i \<Longrightarrow> i \<le> length T \<Longrightarrow> parseRow_loop T i acc = Some (row, e') \<Longrightarrow>
     parseRow_loop (T @ [newline]) i acc = Some (row, e') \<and> i \<le> e' \<and> e' \<le> length T
     \<and> (e' < length T \<longrightarrow> all_closed T (e' + 1))"
proof (induction "length T - i" arbitrary: i acc rule: less_induct)
  case less
  obtain col e where pc: "parseColumn T i = (col, e)" by (cases "parseColumn T i")
  have b: "i \<le> e" "e \<le> length T"
    using parseColumn_bounds [OF less.prems(2) pc] by auto
  have pc': "parseColumn (T @ [newline]) i = (col, e)"
    using pc parseColumn_newline [OF less.prems(2) all_closed_head [OF less.prems(1)]] by simp
  show ?case
  proof (cases "char_at T e = Some comma")
    case True
    have e: "e < length T" using True by (auto simp: char_at_def split: if_splits)
    have c': "char_at (T @ [newline]) e = Some comma"
      using True e by (simp add: char_at_def nth_append)
    have "parseRow_loop T i acc = parseRow_loop T (e + 1) (acc @ [col])"
      using pc True by (rule parseRow_loop_comma)
    then have r: "parseRow_loop T (e + 1) (acc @ [col]) = Some (row, e')"
      using less.prems(3) by simp
    have "all_closed T (e + 1)"
      using less.prems(1) pc b(1) True by (intro all_closed_next) auto
    moreover have "length T - (e + 1) < length T - i" using e b(1) by simp
    moreover have "e + 1 \<le> length T" using e by simp
    ultimately have "parseRow_loop (T @ [newline]) (e + 1) (acc @ [col]) = Some (row, e')
        \<and> e + 1 \<le> e' \<and> e' \<le> length T \<and> (e' < length T \<longrightarrow> all_closed T (e' + 1))"
      using r by (intro less.hyps)
    moreover have "parseRow_loop (T @ [newline]) i acc
        = parseRow_loop (T @ [newline]) (e + 1) (acc @ [col])"
      using pc' c' by (rule parseRow_loop_comma)
    ultimately show ?thesis using b(1) by simp
  next
    case False
    show ?thesis
    proof (cases "char_at T e = None \<or> char_at T e = Some newline")
      case True
      have r: "parseRow_loop T i acc = Some (if col \<noteq> [] then acc @ [col] else acc, e)"
        using pc True by (rule parseRow_loop_end)
      have "char_at (T @ [newline]) e = None \<or> char_at (T @ [newline]) e = Some newline"
        using True b(2) by (cases "e < length T") (auto simp: char_at_def nth_append)
      with pc' have r': "parseRow_loop (T @ [newline]) i acc
          = Some (if col \<noteq> [] then acc @ [col] else acc, e)"
        by (rule parseRow_loop_end)
      have "all_closed T (e + 1)" if "e < length T"
      proof -
        have "char_at T e = Some newline" using True that by (auto simp: char_at_def)
        then show ?thesis using less.prems(1) pc b(1) by (intro all_closed_next) auto
      qed
      then show ?thesis using r r' less.prems(3) b by auto
    next
      case other: False
      then have "stuck T i" using pc False by (simp add: stuck_def)
      then have "parseRow_loop T i acc = None" by (rule parseRow_loop_diverges)
      then show ?thesis using less.prems(3) by simp
    qed
  qed
qed

lemma getDataFrom_loop_newline_general:
  "i \<le> length T \<Longrightarrow> (i < length T \<longrightarrow> all_closed T (i + 1)) \<Longrightarrow>
     getDataFrom_loop T columns i rows = Some (Inr R) \<Longrightarrow>
     getDataFrom_loop (T @ [newline]) columns i rows
       = Some (if columns = [] then Inr (R @ [[]])
               else Inl (row_length_error (length R + 1) 0 (length columns)))"
proof (induction "length T - i" arbitrary: i rows rule: less_induct)
  case less
  show ?case
  proof (cases "i = length T")
    case True
    have R: "R = rows"
      using less.prems(3) True getDataFrom_loop_end [of T columns rows] by simp
    have ne: "length T \<noteq> length (T @ [newline])" by simp
    have pr: "parseRow (T @ [newline]) (length T + 1) = Some ([], length (T @ [newline]))"
      using parseRow_at_end [of "T @ [newline]"] by simp
    have "getDataFrom_loop (T @ [newline]) columns (length T) rows
        = (if length ([]::string list) \<noteq> length columns
           then Some (Inl (row_length_error (length rows + 1) (length ([]::string list)) (length columns)))
           else getDataFrom_loop (T @ [newline]) columns (length (T @ [newline])) (rows @ [[]]))"
      using ne pr by (rule getDataFrom_loop_step)
    then show ?thesis
      using True R getDataFrom_loop_end [of "T @ [newline]" columns "rows @ [[]]"] by auto
  next
    case False
    then have lt: "i + 1 \<le> length T" and ac: "all_closed T (i + 1)"
      using less.prems(1,2) by auto
    obtain row e where pr: "parseRow T (i + 1) = Some (row, e)"
      using less.prems(3) False
      by (subst (asm) getDataFrom_loop.simps) (auto simp: bind_eq_Some_conv)
    then have "parseRow_loop T (i + 1) [] = Some (row, e)" by (simp add: parseRow_def)
    from parseRow_loop_newline_general [OF ac lt this]
    have pr': "parseRow (T @ [newline]) (i + 1) = Some (row, e)"
      and e: "i + 1 \<le> e" "e \<le> length T" "e < length T \<longrightarrow> all_closed T (e + 1)"
      by (auto simp: parseRow_def)
    have s1: "getDataFrom_loop T columns i rows =
       (if length row \<noteq> length columns
        then Some (Inl (row_length_error (length rows + 1) (length row) (length columns)))
        else getDataFrom_loop T columns e (rows @ [row]))"
      using False pr by (rule getDataFrom_loop_step)
    have "i \<noteq> length (T @ [newline])" using less.prems(1) by simp
    then have s2: "getDataFrom_loop (T @ [newline]) columns i rows =
       (if length row \<noteq> length columns
        then Some (Inl (row_length_error (length rows + 1) (length row) (length columns)))
        else getDataFrom_loop (T @ [newline]) columns e (rows @ [row]))"
      using pr' by (rule getDataFrom_loop_step)
    have len: "length row = length columns"
      using s1 less.prems(3) by (auto split: if_splits)
    then have "getDataFrom_loop T columns e (rows @ [row]) = Some (Inr R)"
      using s1 less.prems(3) by simp
    moreover have "length T - e < length T - i" using e lt by simp
    ultimately have "getDataFrom_loop (T @ [newline]) columns e (rows @ [row])
       = Some (if columns = [] then Inr (R @ [[]])
               else Inl (row_length_error (length R + 1) 0 (length columns)))"
      using e by (intro less.hyps) auto
    then show ?thesis using s2 len by simp
  qed
qed

lemma closing_quote_found:
  "parseColumn_quoted T i acc = (col, e) \<Longrightarrow> e < length T \<Longrightarrow> \<exists>k. closing_quote T i = Some k"
proof (induction T i acc rule: parseColumn_quoted.induct)
  case (1 data i acc)
  show ?case
  proof (cases "i + 1 < length data")
    case True
    show ?thesis
    proof (cases "data ! i \<noteq> dquote")
      case a: True
      have "parseColumn_quoted data i acc = parseColumn_quoted data (i + 1) (acc @ [data ! i])"
        using True a by (subst parseColumn_quoted.simps) simp
      then have "\<exists>k. closing_quote data (i + 1) = Some k"
        using True a "1.prems" by (intro "1.IH"(1)) auto
      moreover have "closing_quote data i = closing_quote data (i + 1)"
        using True a by (subst closing_quote.simps) simp
      ultimately show ?thesis by simp
    next
      case a: False
      show ?thesis
      proof (cases "data ! (i + 1) = dquote")
        case b: True
        have "parseColumn_quoted data i acc = parseColumn_quoted data (i + 2) (acc @ [data ! i])"
          using True a b by (subst parseColumn_quoted.simps) simp
        then have "\<exists>k. closing_quote data (i + 2) = Some k"
          using True a b "1.prems" by (intro "1.IH"(2)) auto
        moreover have "closing_quote data i = closing_quote data (i + 2)"
          using True a b by (subst closing_quote.simps) simp
        ultimately show ?thesis by simp
      next
        case b: False
        have "closing_quote data i = Some i"
          using True a b by (subst closing_quote.simps) simp
        then show ?thesis by simp
      qed
    qed
  next
    case False
    have "parseColumn_quoted data i acc = (acc, length data)"
      using False by (subst parseColumn_quoted.simps) auto
    then show ?thesis using "1.prems" by simp
  qed
qed

lemma closed_before_end:
  assumes "parseColumn T i = (col, e)" "e < length T"
  shows "\<not> unclosed T i"
proof (cases "char_at T i = Some dquote")
  case True
  then have "parseColumn_quoted T (i + 1) [] = (col, e)"
    using assms(1) by (simp add: parseColumn_def)
  from closing_quote_found [OF this assms(2)] show ?thesis by (auto simp: unclosed_def)
next
  case False
  then show ?thesis by (simp add: unclosed_def)
qed

lemma field_starts_not_Nil: "field_starts T i \<noteq> []"
  by (subst field_starts.simps) (simp split: prod.splits)

lemma all_closed_last:
  "\<not> unclosed T (last (field_starts T i)) \<Longrightarrow> all_closed T i"
proof (induction T i rule: field_starts.induct)
  case (1 data index)
  obtain col e where pc: "parseColumn data index = (col, e)" by (cases "parseColumn data index")
  show ?case
  proof (cases "index \<le> e \<and> (char_at data e = Some comma \<or> char_at data e = Some newline)")
    case True
    have fs: "field_starts data index = index # field_starts data (e + 1)"
      using pc True by (subst field_starts.simps) simp
    have "e < length data" using True by (auto simp: char_at_def split: if_splits)
    then have c: "\<not> unclosed data index" using pc by (intro closed_before_end)
    have "\<not> unclosed data (last (field_starts data (e + 1)))"
      using "1.prems" fs by (simp add: field_starts_not_Nil)
    then have "all_closed data (e + 1)"
      using pc True by (intro "1.IH") auto
    then show ?thesis using c fs by (simp add: all_closed_def)
  next
    case False
    then have "field_starts data index = [index]"
      using pc by (subst field_starts.simps) auto
    then show ?thesis using "1.prems" by (simp add: all_closed_def)
  qed
qed

lemma parse_newline_general:
  assumes "parse T = Some (Inr (C, R))" "\<not> last_field_unclosed T"
  shows "parse (T @ [newline])
       = Some (if C = [] then Inr (C, R @ [[]])
               else Inl (row_length_error (length R + 1) 0 (length C)))"
proof -
  obtain i where pr: "parseRow T 0 = Some (C, i)"
    and lp: "getDataFrom_loop T C i [] = Some (Inr R)"
    using parse_Inr [OF assms(1)] by auto
  have ac: "all_closed T 0"
    using assms(2) by (intro all_closed_last) (simp add: last_field_unclosed_def)
  have "parseRow_loop T 0 [] = Some (C, i)" using pr by (simp add: parseRow_def)
  from parseRow_loop_newline_general [OF ac _ this]
  have pr': "parseRow (T @ [newline]) 0 = Some (C, i)" and i: "i \<le> length T"
    "i < length T \<longrightarrow> all_closed T (i + 1)"
    by (auto simp: parseRow_def)
  have "getDataFrom_loop (T @ [newline]) C i []
       = Some (if C = [] then Inr (R @ [[]])
               else Inl (row_length_error (length R + 1) 0 (length C)))"
    using i lp by (rule getDataFrom_loop_newline_general)
  then show ?thesis using pr' by (simp add: parse_def)
qed

lemma no_quote_closed: "dquote \<notin> set T \<Longrightarrow> \<not> unclosed T i"
proof
  assume q: "dquote \<notin> set T" and "unclosed T i"
  then have "i < length T" "T ! i = dquote"
    by (auto simp: unclosed_def char_at_def split: if_splits)
  then have "dquote \<in> set T" by (metis nth_mem)
  then show False using q by simp
qed

lemma raw_row_unfold:
  "raw_row T i =
     (case parseColumn T i of (parsedColumn, endIndex) \<Rightarrow>
        if char_at T endIndex = Some comma then parsedColumn # raw_row T (endIndex + 1)
        else [parsedColumn])"
proof -
  obtain col e where pc: "parseColumn T i = (col, e)" by (cases "parseColumn T i")
  have "i \<le> e" if "char_at T e = Some comma"
  proof (cases "i \<le> length T")
    case True
    then show ?thesis using parseColumn_bounds [OF True pc] by simp
  next
    case False
    then have "e = length T" using pc parseColumn_beyond [of T i] by simp
    then show ?thesis using that by simp
  qed
  then show ?thesis using pc by (subst raw_row.simps) auto
qed

lemma parseRow_raw_row:
  "parseRow T i = Some (row, e) \<Longrightarrow> row = drop_empty_end (raw_row T i)"
  using parseRow_loop_raw_row [of T i "[]" row e] by (simp add: parseRow_def)

lemma parse_header_raw_row:
  assumes "parse T = Some r"
  shows "\<exists>i0. parseRow T 0 = Some (drop_empty_end (raw_row T 0), i0)"
proof -
  obtain header i0 where "parseRow T 0 = Some (header, i0)"
    using assms by (auto simp: parse_def bind_eq_Some_conv)
  then show ?thesis using parseRow_raw_row [of T 0 header i0] by auto
qed

lemma parse_columns_raw_row:
  assumes "parse T = Some (Inr (cols, rows))"
  shows "cols = drop_empty_end (raw_row T 0)"
proof -
  obtain i0 where "parseRow T 0 = Some (cols, i0)"
    using parse_Inr [OF assms] by auto
  then show ?thesis by (rule parseRow_raw_row)
qed
section \<open>Claims about the codec\<close>

lemma encode_field_last:
  assumes "encode_field f \<noteq> []"
  shows "last (encode_field f) \<noteq> newline"
proof (cases "needs_quotes f")
  case True
  then show ?thesis by (simp add: encode_field_def)
next
  case False
  then have "f \<noteq> []" "newline \<notin> set f"
    using assms by (auto simp: encode_field_def needs_quotes_def)
  then have "last f \<noteq> newline" by (metis last_in_set)
  then show ?thesis using False by (simp add: encode_field_def)
qed

lemma joined_comma_last:
  assumes "\<forall>f \<in> set fs. f \<noteq> [] \<longrightarrow> last f \<noteq> newline" "joined [comma] fs \<noteq> []"
  shows "last (joined [comma] fs) \<noteq> newline"
  using assms by (induction "[comma]" fs rule: joined.induct) auto

lemma encode_row_last: "encode_row row \<noteq> [] \<Longrightarrow> last (encode_row row) \<noteq> newline"
  unfolding encode_row_def by (rule joined_comma_last) (auto simp: encode_field_last)

text \<open>
  C1, as amended. For all columns \<open>C\<close> and rows \<open>R\<close> in which every row has as many
  fields as \<open>C\<close>, and in which neither \<open>C\<close> nor any row ends with an empty string,
  parsing the serialised text gives back \<open>C\<close> and \<open>R\<close>; with no rows it gives back \<open>C\<close>
  and no rows.
\<close>

theorem parse_toString_roundtrip:
  assumes "\<forall>r \<in> set R. length r = length C"
    and "no_empty_end C"
    and "\<forall>r \<in> set R. no_empty_end r"
  shows "parse (toString \<lparr>t_columns = C, t_data = R\<rparr>) = Some (Inr (C, R))"
  using assms by (intro parse_toString) auto

theorem parse_toString_roundtrip_witness:
  "list_all (\<lambda>r. length r = length [''a'', ''b'']) [[''x'', ''y,\"''], ['''', ''\"'']]
   \<and> no_empty_end [''a'', ''b'']
   \<and> list_all no_empty_end [[''x'', ''y,\"''], ['''', ''\"'']]
   \<and> parse (toString \<lparr>t_columns = [''a'', ''b''], t_data = [[''x'', ''y,\"''], ['''', ''\"'']]\<rparr>)
       = Some (Inr ([''a'', ''b''], [[''x'', ''y,\"''], ['''', ''\"'']]))
   \<and> parse (toString \<lparr>t_columns = [''a'', ''b''], t_data = []\<rparr>) = Some (Inr ([''a'', ''b''], []))"
  using parse_toString_roundtrip [of "[[''x'', ''y,\"''], ['''', ''\"'']]" "[''a'', ''b'']"]
    parse_toString_roundtrip [of "[]" "[''a'', ''b'']"]
  by (simp add: no_empty_end_def)

text \<open>
  C1 as stated fails: the row \<open>x,\<close> has two fields, as the columns \<open>a,b\<close> have, and its
  text is read back as a row of one field, which is rejected.
\<close>

theorem parse_toString_empty_last_field:
  "length [''x'', ''''] = length [''a'', ''b'']
   \<and> parse (toString \<lparr>t_columns = [''a'', ''b''], t_data = [[''x'', '''']]\<rparr>)
       = Some (Inl (row_length_error 1 1 2))
   \<and> parse (toString \<lparr>t_columns = [''a'', ''b''], t_data = [[''x'', '''']]\<rparr>)
       \<noteq> Some (Inr ([''a'', ''b''], [[''x'', '''']]))"
proof -
  have "parse (toString \<lparr>t_columns = [''a'', ''b''], t_data = [[''x'', '''']]\<rparr>)
       = Some (Inl (row_length_error 1 1 2))"
    by code_simp
  then show ?thesis by simp
qed

text \<open>
  C3, as amended. The suppression of an empty last field is applied to the header row as
  it is to a data row, both being read by \<open>parseRow\<close>. For every text, at every index
  where a row begins, that of the header included, the fields returned by \<open>parseRow\<close> are
  the fields of the row without an empty last one; whenever the parser returns, with
  columns or with a rejection, the header it has read is the first row without an empty
  last field, and for every text whose first row ends with an empty field the columns are
  the fields before it. For every table, with any rows, whose text is accepted, the
  columns and each row are read back without an empty last field.
\<close>

theorem header_empty_end_dropped:
  "(parseRow T i = Some (row, e) \<longrightarrow> row = drop_empty_end (raw_row T i))
   \<and> (parse T = Some (Inr (cols, rows)) \<longrightarrow> cols = drop_empty_end (raw_row T 0))
   \<and> (parse T = Some (Inr (cols, rows)) \<and> last (raw_row T 0) = [] \<longrightarrow>
        cols = butlast (raw_row T 0) \<and> cols \<noteq> raw_row T 0)
   \<and> (parse T = Some (Inl err) \<longrightarrow>
        (\<exists>i0. parseRow T 0 = Some (drop_empty_end (raw_row T 0), i0)))
   \<and> (list_all (\<lambda>r. length (drop_empty_end r) = length (drop_empty_end C)) R \<longrightarrow>
        parse (toString \<lparr>t_columns = C, t_data = R\<rparr>)
          = Some (Inr (drop_empty_end C, map drop_empty_end R)))"
proof (intro conjI impI)
  assume "parseRow T i = Some (row, e)"
  then show "row = drop_empty_end (raw_row T i)" by (rule parseRow_raw_row)
next
  assume "parse T = Some (Inr (cols, rows))"
  then show "cols = drop_empty_end (raw_row T 0)" by (rule parse_columns_raw_row)
next
  assume a: "parse T = Some (Inr (cols, rows)) \<and> last (raw_row T 0) = []"
  then have "cols = drop_empty_end (raw_row T 0)" by (intro parse_columns_raw_row) simp
  then show c: "cols = butlast (raw_row T 0)"
    using a raw_row_not_Nil [of T 0] by (simp add: drop_empty_end_def)
  have "butlast (raw_row T 0) \<noteq> raw_row T 0"
    using raw_row_not_Nil [of T 0] by (cases "raw_row T 0" rule: rev_cases) simp_all
  then show "cols \<noteq> raw_row T 0" using c by simp
next
  assume "parse T = Some (Inl err)"
  then show "\<exists>i0. parseRow T 0 = Some (drop_empty_end (raw_row T 0), i0)"
    by (rule parse_header_raw_row)
next
  assume "list_all (\<lambda>r. length (drop_empty_end r) = length (drop_empty_end C)) R"
  then have "\<forall>r \<in> set R. length (drop_empty_end r) = length (drop_empty_end C)"
    by (simp add: list_all_iff)
  then show "parse (toString \<lparr>t_columns = C, t_data = R\<rparr>)
          = Some (Inr (drop_empty_end C, map drop_empty_end R))"
    by (rule parse_toString_general)
qed

theorem header_empty_end_dropped_witness:
  "parseRow ''a,b,\<newline>1,2'' 0 = Some ([''a'', ''b''], 4)
   \<and> raw_row ''a,b,\<newline>1,2'' 0 = [''a'', ''b'', '''']
   \<and> last (raw_row ''a,b,\<newline>1,2'' 0) = []
   \<and> parse ''a,b,\<newline>1,2'' = Some (Inr ([''a'', ''b''], [[''1'', ''2'']]))
   \<and> [''a'', ''b''] = drop_empty_end (raw_row ''a,b,\<newline>1,2'' 0)
   \<and> [''a'', ''b''] = butlast (raw_row ''a,b,\<newline>1,2'' 0)
   \<and> [''a'', ''b''] \<noteq> raw_row ''a,b,\<newline>1,2'' 0
   \<and> parseRow ''a,b,\<newline>1,2,'' 5 = Some ([''1'', ''2''], 9)
   \<and> raw_row ''a,b,\<newline>1,2,'' 5 = [''1'', ''2'', '''']
   \<and> parse ''a,b,\<newline>1'' = Some (Inl (row_length_error 1 1 2))
   \<and> (\<exists>i0. parseRow ''a,b,\<newline>1'' 0 = Some (drop_empty_end (raw_row ''a,b,\<newline>1'' 0), i0))
   \<and> list_all (\<lambda>r. length (drop_empty_end r) = length (drop_empty_end [''a'', ''b'', '''']))
        [[''1'', ''2''], [''3'', ''4'', '''']]
   \<and> toString \<lparr>t_columns = [''a'', ''b'', ''''], t_data = [[''1'', ''2''], [''3'', ''4'', '''']]\<rparr>
        = ''a,b,\<newline>1,2\<newline>3,4,''
   \<and> parse (toString \<lparr>t_columns = [''a'', ''b'', ''''],
                        t_data = [[''1'', ''2''], [''3'', ''4'', '''']]\<rparr>)
        = Some (Inr ([''a'', ''b''], [[''1'', ''2''], [''3'', ''4'']]))"
proof -
  let ?T = "''a,b,\<newline>1,2''"
  let ?C = "[''a'', ''b'', '''']"
  let ?R = "[[''1'', ''2''], [''3'', ''4'', '''']]"
  have h: "parseRow ?T 0 = Some ([''a'', ''b''], 4)" by code_simp
  have r: "raw_row ?T 0 = [''a'', ''b'', '''']" by code_simp
  have p: "parse ?T = Some (Inr ([''a'', ''b''], [[''1'', ''2'']]))" by code_simp
  have h2: "parseRow ''a,b,\<newline>1,2,'' 5 = Some ([''1'', ''2''], 9)" by code_simp
  have r2: "raw_row ''a,b,\<newline>1,2,'' 5 = [''1'', ''2'', '''']" by code_simp
  have q: "parse ''a,b,\<newline>1'' = Some (Inl (row_length_error 1 1 2))" by code_simp
  have l: "list_all (\<lambda>r. length (drop_empty_end r) = length (drop_empty_end ?C)) ?R"
    by (simp add: drop_empty_end_def)
  have s: "toString \<lparr>t_columns = ?C, t_data = ?R\<rparr> = ''a,b,\<newline>1,2\<newline>3,4,''"
    by code_simp
  note t = header_empty_end_dropped [where T = ?T and i = 0 and row = "[''a'', ''b'']" and e = 4
      and cols = "[''a'', ''b'']" and rows = "[[''1'', ''2'']]" and C = ?C and R = ?R]
  have 1: "[''a'', ''b''] = drop_empty_end (raw_row ?T 0)"
    using t [THEN conjunct1, THEN mp, OF h] .
  have e: "last (raw_row ?T 0) = []"
    using r by simp
  have 2: "[''a'', ''b''] = butlast (raw_row ?T 0) \<and> [''a'', ''b''] \<noteq> raw_row ?T 0"
    using t [THEN conjunct2, THEN conjunct2, THEN conjunct1, THEN mp, OF conjI, OF p e] .
  have 3: "parse (toString \<lparr>t_columns = ?C, t_data = ?R\<rparr>)
        = Some (Inr ([''a'', ''b''], [[''1'', ''2''], [''3'', ''4'']]))"
    using t [THEN conjunct2, THEN conjunct2, THEN conjunct2, THEN conjunct2, THEN mp, OF l]
    by (simp add: drop_empty_end_def)
  have 4: "\<exists>i0. parseRow ''a,b,\<newline>1'' 0
        = Some (drop_empty_end (raw_row ''a,b,\<newline>1'' 0), i0)"
    using header_empty_end_dropped [where T = "''a,b,\<newline>1''"
        and err = "row_length_error 1 1 2",
        THEN conjunct2, THEN conjunct2, THEN conjunct2, THEN conjunct1, THEN mp, OF q] .
  show ?thesis
    using h r e p 1 2 [THEN conjunct1] 2 [THEN conjunct2] h2 r2 q 4 l s 3 by (intro conjI)
qed

text \<open>
  C3 as stated fails: the header \<open>a,b,\<close> is read as the two columns \<open>a\<close> and \<open>b\<close>, the
  empty name at its end is not kept.
\<close>

theorem header_trailing_comma:
  "parse ''a,b,'' = Some (Inr ([''a'', ''b''], []))
   \<and> parse ''a,b,'' \<noteq> Some (Inr ([''a'', ''b'', ''''], []))"
proof -
  have "parse ''a,b,'' = Some (Inr ([''a'', ''b''], []))"
    by code_simp
  then show ?thesis by simp
qed

text \<open>
  C4. Parsing is not total: on the text \<open>"a"b\<close> the closing quote of the first field is
  followed by \<open>b\<close>, no case of the switch of \<open>parseRow\<close> applies, and its loop reads the
  same field again for ever.
\<close>

theorem parse_quote_then_letter_never_returns:
  "stuck ''\"a\"b'' 0 \<and> parse ''\"a\"b'' = None"
proof -
  have st: "stuck ''\"a\"b'' 0"
    by code_simp
  then have "parseRow_loop ''\"a\"b'' 0 [] = None"
    by (rule parseRow_loop_diverges)
  then show ?thesis using st by (simp add: parse_def parseRow_def)
qed

text \<open>
  C5. The encoder of a field wraps it in double quotes exactly when it contains a comma,
  contains a newline, or begins with a double quote; inside the quotes every double quote
  is doubled, and a field that needs no quotes is written as it is. The four examples of
  the claim follow, the last one read by \<open>parseColumn\<close> and by the whole parser.
\<close>

theorem convertToproperStr_quotes:
  "convertToproperStr F =
     (if comma \<in> set F \<or> newline \<in> set F \<or> take 1 F = [dquote]
      then [dquote] @ concat (map (\<lambda>c. if c = dquote then [dquote, dquote] else [c]) F) @ [dquote]
      else F)
   \<and> convertToproperStr ''a,b'' = ''\"a,b\"''
   \<and> convertToproperStr ''a\"b'' = ''a\"b''
   \<and> convertToproperStr ''\"ab'' = ''\"\"\"ab\"''
   \<and> parseColumn ''\"\"\"ab\"'' 0 = (''\"ab'', 6)
   \<and> parse ''\"\"\"ab\"'' = Some (Inr ([''\"ab''], []))"
proof -
  have "convertToproperStr F =
     (if comma \<in> set F \<or> newline \<in> set F \<or> take 1 F = [dquote]
      then [dquote] @ concat (map (\<lambda>c. if c = dquote then [dquote, dquote] else [c]) F) @ [dquote]
      else F)"
    by (simp add: convertToproperStr_eq encode_field_def needs_quotes_def doubled_def)
  moreover have "convertToproperStr ''a,b'' = ''\"a,b\"''" by code_simp
  moreover have "convertToproperStr ''a\"b'' = ''a\"b''" by code_simp
  moreover have "convertToproperStr ''\"ab'' = ''\"\"\"ab\"''" by code_simp
  moreover have "parseColumn ''\"\"\"ab\"'' 0 = (''\"ab'', 6)" by code_simp
  moreover have "parse ''\"\"\"ab\"'' = Some (Inr ([''\"ab''], []))" by code_simp
  ultimately show ?thesis by blast
qed

text \<open>
  C9. The empty text parses to no columns and no rows; the text
  \<open>column1,column2,column3\<close> parses to these three columns and no rows; a table with no
  rows is serialised as its encoded header alone, the encoded names with a comma between
  two of them, which does not end with a newline.
\<close>

theorem empty_table:
  "parse [] = Some (Inr ([], []))
   \<and> parse ''column1,column2,column3'' = Some (Inr ([''column1'', ''column2'', ''column3''], []))
   \<and> toString \<lparr>t_columns = C, t_data = []\<rparr> = encode_row C
   \<and> toString \<lparr>t_columns = [''column1'', ''column2'', ''column3''], t_data = []\<rparr>
       = ''column1,column2,column3''
   \<and> toString \<lparr>t_columns = [''a,b'', ''c''], t_data = []\<rparr> = ''\"a,b\",c''
   \<and> toString \<lparr>t_columns = [], t_data = []\<rparr> = []
   \<and> \<not> (\<exists>s. toString \<lparr>t_columns = C, t_data = []\<rparr> = s @ [newline])"
proof -
  have "parse [] = Some (Inr ([], []))" by code_simp
  moreover have "parse ''column1,column2,column3''
      = Some (Inr ([''column1'', ''column2'', ''column3''], []))"
    by code_simp
  moreover have ts: "toString \<lparr>t_columns = C, t_data = []\<rparr> = encode_row C"
    by (simp add: toString_concat)
  moreover have "toString \<lparr>t_columns = [''column1'', ''column2'', ''column3''], t_data = []\<rparr>
       = ''column1,column2,column3''"
    by code_simp
  moreover have "toString \<lparr>t_columns = [''a,b'', ''c''], t_data = []\<rparr> = ''\"a,b\",c''"
    by code_simp
  moreover have "toString \<lparr>t_columns = [], t_data = []\<rparr> = []"
    by code_simp
  moreover have "\<not> (\<exists>s. encode_row C = s @ [newline])"
    using encode_row_last [of C] by auto
  ultimately show ?thesis by simp
qed
section \<open>Claims about the shape of the table\<close>

text \<open>
  C6. A row of the wrong length leaves everything as it was. The setter, when it
  throws, returns the object unchanged, and when it does not, it has replaced all the rows
  and nothing else; a constructor that throws gives no table, and the rows of the object it
  worked on are still empty; \<open>getDataFrom\<close>, when it rejects, returns the object unchanged.
\<close>

theorem row_length_error_atomic:
  "(fst (set_data this rows) = Some e \<longrightarrow> snd (set_data this rows) = this)
   \<and> (fst (set_data this rows) = None \<longrightarrow> snd (set_data this rows) = this\<lparr>t_data := rows\<rparr>)
   \<and> (fst (constructor_body columns rows) = Some e \<longrightarrow>
        new_Table columns rows = Inl e \<and> t_data (snd (constructor_body columns rows)) = [])
   \<and> (getDataFrom this filename read = Some (Some e, after) \<longrightarrow> after = this)"
proof (intro conjI impI)
  assume "fst (set_data this rows) = Some e"
  then show "snd (set_data this rows) = this"
    using set_data_cases [of this rows] by auto
next
  assume "fst (set_data this rows) = None"
  then show "snd (set_data this rows) = this\<lparr>t_data := rows\<rparr>"
    using set_data_cases [of this rows] by auto
next
  assume a: "fst (constructor_body columns rows) = Some e"
  then show "new_Table columns rows = Inl e"
    by (cases "constructor_body columns rows") (simp add: new_Table_def)
  show "t_data (snd (constructor_body columns rows)) = []"
    using a set_data_cases [of "set_columns new_object columns" rows]
    by (auto simp: constructor_body_def set_columns_def new_object_def)
next
  assume "getDataFrom this filename read = Some (Some e, after)"
  then show "after = this"
    using getDataFrom_cases [of this filename read "Some e" after] by auto
qed

theorem row_length_error_atomic_witness:
  "fst (set_data \<lparr>t_columns = [''name'', ''gender'', ''age''], t_data = [[''Pedro'', ''M'', ''33'']]\<rparr>
      [[''Pedro'', ''M'', ''33''], [''Isabella'', ''F''], [''Matias'', ''M'', ''94'']])
     = Some (row_length_error 2 2 3)
   \<and> snd (set_data \<lparr>t_columns = [''name'', ''gender'', ''age''], t_data = [[''Pedro'', ''M'', ''33'']]\<rparr>
      [[''Pedro'', ''M'', ''33''], [''Isabella'', ''F''], [''Matias'', ''M'', ''94'']])
     = \<lparr>t_columns = [''name'', ''gender'', ''age''], t_data = [[''Pedro'', ''M'', ''33'']]\<rparr>
   \<and> fst (set_data \<lparr>t_columns = [''name'', ''gender'', ''age''], t_data = [[''Pedro'', ''M'', ''33'']]\<rparr>
      [[''Isabella'', ''F'', ''42'']]) = None
   \<and> snd (set_data \<lparr>t_columns = [''name'', ''gender'', ''age''], t_data = [[''Pedro'', ''M'', ''33'']]\<rparr>
      [[''Isabella'', ''F'', ''42'']])
     = \<lparr>t_columns = [''name'', ''gender'', ''age''], t_data = [[''Isabella'', ''F'', ''42'']]\<rparr>
   \<and> fst (constructor_body [''name'', ''gender'', ''age'']
      [[''Pedro'', ''M'', ''33''], [''Isabella'', ''F''], [''Matias'', ''M'', ''94'']])
     = Some (row_length_error 2 2 3)
   \<and> new_Table [''name'', ''gender'', ''age'']
      [[''Pedro'', ''M'', ''33''], [''Isabella'', ''F''], [''Matias'', ''M'', ''94'']]
     = Inl (row_length_error 2 2 3)
   \<and> t_data (snd (constructor_body [''name'', ''gender'', ''age'']
      [[''Pedro'', ''M'', ''33''], [''Isabella'', ''F''], [''Matias'', ''M'', ''94'']])) = []
   \<and> getDataFrom \<lparr>t_columns = [''name'', ''gender'', ''age''], t_data = [[''Pedro'', ''M'', ''33'']]\<rparr>
        ''file.csv'' (Inr ''a,b\<newline>1,2\<newline>3'')
     = Some (Some (row_length_error 2 1 2),
         \<lparr>t_columns = [''name'', ''gender'', ''age''], t_data = [[''Pedro'', ''M'', ''33'']]\<rparr>)"
proof -
  let ?tab = "\<lparr>t_columns = [''name'', ''gender'', ''age''], t_data = [[''Pedro'', ''M'', ''33'']]\<rparr>"
  let ?rows = "[[''Pedro'', ''M'', ''33''], [''Isabella'', ''F''], [''Matias'', ''M'', ''94'']]"
  let ?good = "[[''Isabella'', ''F'', ''42'']]"
  have s: "fst (set_data ?tab ?rows) = Some (row_length_error 2 2 3)"
    by code_simp
  have s': "fst (set_data ?tab ?good) = None"
    by code_simp
  have c: "fst (constructor_body [''name'', ''gender'', ''age''] ?rows) = Some (row_length_error 2 2 3)"
    by code_simp
  have g: "getDataFrom ?tab ''file.csv'' (Inr ''a,b\<newline>1,2\<newline>3'')
      = Some (Some (row_length_error 2 1 2), ?tab)"
    by code_simp
  show ?thesis
    using s s' c g
      row_length_error_atomic [where this = ?tab and rows = ?rows and e = "row_length_error 2 2 3"
        and columns = "[''name'', ''gender'', ''age'']"]
      row_length_error_atomic [where this = ?tab and rows = ?good]
      row_length_error_atomic [where this = ?tab and e = "row_length_error 2 1 2"
        and filename = "''file.csv''" and read = "Inr ''a,b\<newline>1,2\<newline>3''"
        and after = ?tab]
    by simp
qed

text \<open>
  C7. The setter, and with it the constructor, throws exactly when some row has not as
  many fields as there are columns, and the error names the first such row, counted from
  one, the length it has and the number of columns. The parser rejects a text exactly when,
  after rows that all have the length of the header, the next row it reads has not, and
  the error names that row by the number of rows read before it plus one, with its length
  and the length of the header; it accepts a text exactly when all the rows it reads up to
  the end of the text have the length of the header. The text \<open>a,b\<close>, \<open>1,2\<close>, \<open>3\<close> is
  rejected for row 2, the text \<open>a,b\<close>, \<open>1,2,3\<close> for row 1. The description of the error
  determines the three numbers.
\<close>

theorem row_length_error_first_row:
  "((\<exists>e. fst (set_data this rows) = Some e)
      \<longleftrightarrow> \<not> list_all (\<lambda>r. length r = length (t_columns this)) rows)
   \<and> (fst (set_data this rows) = Some e \<longrightarrow>
        (\<exists>j. first_bad_row (length (t_columns this)) rows j
           \<and> e = row_length_error (j + 1) (length (rows ! j)) (length (t_columns this))))
   \<and> ((\<exists>e. new_Table columns rows = Inl e)
      \<longleftrightarrow> \<not> list_all (\<lambda>r. length r = length columns) rows)
   \<and> (new_Table columns rows = Inl e \<longrightarrow>
        (\<exists>j. first_bad_row (length columns) rows j
           \<and> e = row_length_error (j + 1) (length (rows ! j)) (length columns)))
   \<and> parse ''a,b\<newline>1,2\<newline>3'' = Some (Inl (row_length_error 2 1 2))
   \<and> (parse content = Some (Inl e) \<longrightarrow>
        (\<exists>header i0 j rs row i. parseRow content 0 = Some (header, i0)
           \<and> rows_read content i0 j rs
           \<and> list_all (\<lambda>r. length r = length header) rs
           \<and> j \<noteq> length content \<and> parseRow content (j + 1) = Some (row, i)
           \<and> length row \<noteq> length header
           \<and> e = row_length_error (length rs + 1) (length row) (length header)))
   \<and> (parseRow content 0 = Some (header, i0)
        \<and> rows_read content i0 j rs
        \<and> list_all (\<lambda>r. length r = length header) rs
        \<and> j \<noteq> length content \<and> parseRow content (j + 1) = Some (row, i)
        \<and> length row \<noteq> length header
      \<longrightarrow> parse content
            = Some (Inl (row_length_error (length rs + 1) (length row) (length header))))
   \<and> (parse content = Some (Inr (header, rs))
      \<longleftrightarrow> (\<exists>i0. parseRow content 0 = Some (header, i0)
             \<and> rows_read content i0 (length content) rs
             \<and> list_all (\<lambda>r. length r = length header) rs))
   \<and> parse ''a,b\<newline>1,2,3'' = Some (Inl (row_length_error 1 3 2))
   \<and> (row_length_error n has expected = row_length_error n' has' expected'
        \<longleftrightarrow> n = n' \<and> has = has' \<and> expected = expected')"
proof (intro conjI impI)
  show "row_length_error n has expected = row_length_error n' has' expected'
        \<longleftrightarrow> n = n' \<and> has = has' \<and> expected = expected'"
    by (rule row_length_error_inject)
  show "(\<exists>e. fst (set_data this rows) = Some e)
      \<longleftrightarrow> \<not> list_all (\<lambda>r. length r = length (t_columns this)) rows"
    by (rule set_data_error_iff)
  show "(\<exists>e. new_Table columns rows = Inl e)
      \<longleftrightarrow> \<not> list_all (\<lambda>r. length r = length columns) rows"
    by (rule new_Table_error_iff)
  show "parse ''a,b\<newline>1,2\<newline>3'' = Some (Inl (row_length_error 2 1 2))"
    by code_simp
  show "parse ''a,b\<newline>1,2,3'' = Some (Inl (row_length_error 1 3 2))"
    by code_simp
  show "parse content = Some (Inr (header, rs))
      \<longleftrightarrow> (\<exists>i0. parseRow content 0 = Some (header, i0)
             \<and> rows_read content i0 (length content) rs
             \<and> list_all (\<lambda>r. length r = length header) rs)"
    using parse_rows_read [of content header rs] parse_accepts_right_rows [of content header _ rs]
    by blast
next
  assume "fst (set_data this rows) = Some e"
  then show "\<exists>j. first_bad_row (length (t_columns this)) rows j
           \<and> e = row_length_error (j + 1) (length (rows ! j)) (length (t_columns this))"
    by (rule set_data_first_bad_row)
next
  assume "new_Table columns rows = Inl e"
  then show "\<exists>j. first_bad_row (length columns) rows j
           \<and> e = row_length_error (j + 1) (length (rows ! j)) (length columns)"
    by (rule new_Table_first_bad_row)
next
  assume "parse content = Some (Inl e)"
  then show "\<exists>header i0 j rs row i. parseRow content 0 = Some (header, i0)
           \<and> rows_read content i0 j rs
           \<and> list_all (\<lambda>r. length r = length header) rs
           \<and> j \<noteq> length content \<and> parseRow content (j + 1) = Some (row, i)
           \<and> length row \<noteq> length header
           \<and> e = row_length_error (length rs + 1) (length row) (length header)"
    by (rule parse_first_error)
next
  assume a: "parseRow content 0 = Some (header, i0)
        \<and> rows_read content i0 j rs
        \<and> list_all (\<lambda>r. length r = length header) rs
        \<and> j \<noteq> length content \<and> parseRow content (j + 1) = Some (row, i)
        \<and> length row \<noteq> length header"
  show "parse content
      = Some (Inl (row_length_error (length rs + 1) (length row) (length header)))"
    by (rule parse_rejects_first_wrong_row [where ?i0.0 = i0 and j = j and i = i]) (use a in simp_all)
qed

theorem row_length_error_first_row_witness:
  "fst (set_data \<lparr>t_columns = [''name'', ''gender'', ''age''], t_data = []\<rparr>
      [[''Pedro'', ''M'', ''33''], [''Isabella'', ''F''], [''Matias'', ''M'', ''94'']])
     = Some (row_length_error 2 2 3)
   \<and> new_Table [''name'', ''gender'', ''age'']
      [[''Pedro'', ''M'', ''33''], [''Isabella'', ''F''], [''Matias'', ''M'', ''94'']]
     = Inl (row_length_error 2 2 3)
   \<and> (\<exists>j. first_bad_row (length [''name'', ''gender'', ''age''])
            [[''Pedro'', ''M'', ''33''], [''Isabella'', ''F''], [''Matias'', ''M'', ''94'']] j
         \<and> row_length_error 2 2 3 = row_length_error (j + 1)
             (length ([[''Pedro'', ''M'', ''33''], [''Isabella'', ''F''], [''Matias'', ''M'', ''94'']] ! j))
             (length [''name'', ''gender'', ''age'']))
   \<and> first_bad_row 3 [[''Pedro'', ''M'', ''33''], [''Isabella'', ''F''], [''Matias'', ''M'', ''94'']] 1
   \<and> parse ''a,b\<newline>1,2\<newline>3'' = Some (Inl (row_length_error 2 1 2))
   \<and> (\<exists>header i0 j rs row i. parseRow ''a,b\<newline>1,2\<newline>3'' 0 = Some (header, i0)
           \<and> rows_read ''a,b\<newline>1,2\<newline>3'' i0 j rs
           \<and> list_all (\<lambda>r. length r = length header) rs
           \<and> j \<noteq> length ''a,b\<newline>1,2\<newline>3''
           \<and> parseRow ''a,b\<newline>1,2\<newline>3'' (j + 1) = Some (row, i)
           \<and> length row \<noteq> length header
           \<and> row_length_error 2 1 2 = row_length_error (length rs + 1) (length row) (length header))
   \<and> parseRow ''a,b\<newline>1,2\<newline>3,4,5'' 0 = Some ([''a'', ''b''], 3)
   \<and> rows_read ''a,b\<newline>1,2\<newline>3,4,5'' 3 7 [[''1'', ''2'']]
   \<and> list_all (\<lambda>r. length r = length [''a'', ''b'']) [[''1'', ''2'']]
   \<and> 7 \<noteq> length ''a,b\<newline>1,2\<newline>3,4,5''
   \<and> parseRow ''a,b\<newline>1,2\<newline>3,4,5'' (7 + 1) = Some ([''3'', ''4'', ''5''], 13)
   \<and> length [''3'', ''4'', ''5''] \<noteq> length [''a'', ''b'']
   \<and> parse ''a,b\<newline>1,2\<newline>3,4,5'' = Some (Inl (row_length_error 2 3 2))
   \<and> parse ''a,b\<newline>1,2'' = Some (Inr ([''a'', ''b''], [[''1'', ''2'']]))
   \<and> (\<exists>i0. parseRow ''a,b\<newline>1,2'' 0 = Some ([''a'', ''b''], i0)
         \<and> rows_read ''a,b\<newline>1,2'' i0 (length ''a,b\<newline>1,2'') [[''1'', ''2'']]
         \<and> list_all (\<lambda>r. length r = length [''a'', ''b'']) [[''1'', ''2'']])"
proof -
  let ?columns = "[''name'', ''gender'', ''age'']"
  let ?rows = "[[''Pedro'', ''M'', ''33''], [''Isabella'', ''F''], [''Matias'', ''M'', ''94'']]"
  let ?tab = "\<lparr>t_columns = ?columns, t_data = []\<rparr>"
  let ?T = "''a,b\<newline>1,2\<newline>3,4,5''"
  have s: "fst (set_data ?tab ?rows) = Some (row_length_error 2 2 3)"
    by code_simp
  have n: "new_Table ?columns ?rows = Inl (row_length_error 2 2 3)"
    by code_simp
  have p: "parse ''a,b\<newline>1,2\<newline>3'' = Some (Inl (row_length_error 2 1 2))"
    by code_simp
  have f: "first_bad_row 3 ?rows 1"
    by (simp add: first_bad_row_def)
  note t = row_length_error_first_row [where this = ?tab and rows = ?rows
      and e = "row_length_error 2 2 3" and columns = ?columns]
  have a: "\<exists>j. first_bad_row (length (t_columns ?tab)) ?rows j
         \<and> row_length_error 2 2 3
             = row_length_error (j + 1) (length (?rows ! j)) (length (t_columns ?tab))"
    using t [THEN conjunct2, THEN conjunct1, THEN mp, OF s] .
  have b: "\<exists>j. first_bad_row (length ?columns) ?rows j
         \<and> row_length_error 2 2 3 = row_length_error (j + 1) (length (?rows ! j)) (length ?columns)"
    using t [THEN conjunct2, THEN conjunct2, THEN conjunct2, THEN conjunct1, THEN mp, OF n] .
  note t' = row_length_error_first_row [where e = "row_length_error 2 1 2"
      and content = "''a,b\<newline>1,2\<newline>3''",
      THEN conjunct2, THEN conjunct2, THEN conjunct2, THEN conjunct2, THEN conjunct2,
      THEN conjunct1, THEN mp, OF p]
  from t' have c: "\<exists>header i0 j rs row i. parseRow ''a,b\<newline>1,2\<newline>3'' 0 = Some (header, i0)
           \<and> rows_read ''a,b\<newline>1,2\<newline>3'' i0 j rs
           \<and> list_all (\<lambda>r. length r = length header) rs
           \<and> j \<noteq> length ''a,b\<newline>1,2\<newline>3''
           \<and> parseRow ''a,b\<newline>1,2\<newline>3'' (j + 1) = Some (row, i)
           \<and> length row \<noteq> length header
           \<and> row_length_error 2 1 2 = row_length_error (length rs + 1) (length row) (length header)"
    .
  have h: "parseRow ?T 0 = Some ([''a'', ''b''], 3)" by code_simp
  have r1: "parseRow ?T (3 + 1) = Some ([''1'', ''2''], 7)" by code_simp
  have r2: "parseRow ?T (7 + 1) = Some ([''3'', ''4'', ''5''], 13)" by code_simp
  have "rows_read ?T 3 7 ([] @ [[''1'', ''2'']])"
    by (rule rows_read.next_row [OF rows_read.start _ r1]) simp
  then have rr: "rows_read ?T 3 7 [[''1'', ''2'']]" by simp
  have hyp: "parseRow ?T 0 = Some ([''a'', ''b''], 3)
        \<and> rows_read ?T 3 7 [[''1'', ''2'']]
        \<and> list_all (\<lambda>r. length r = length [''a'', ''b'']) [[''1'', ''2'']]
        \<and> 7 \<noteq> length ?T \<and> parseRow ?T (7 + 1) = Some ([''3'', ''4'', ''5''], 13)
        \<and> length [''3'', ''4'', ''5''] \<noteq> length [''a'', ''b'']"
    using h rr r2 by simp
  have d: "parse ?T = Some (Inl (row_length_error 2 3 2))"
    using row_length_error_first_row [where content = ?T and header = "[''a'', ''b'']"
        and ?i0.0 = 3 and j = 7 and rs = "[[''1'', ''2'']]" and row = "[''3'', ''4'', ''5'']"
        and i = 13,
        THEN conjunct2, THEN conjunct2, THEN conjunct2, THEN conjunct2, THEN conjunct2,
        THEN conjunct2, THEN conjunct1, THEN mp, OF hyp]
    by (simp add: numeral_2_eq_2 numeral_3_eq_3)
  have g: "parse ''a,b\<newline>1,2'' = Some (Inr ([''a'', ''b''], [[''1'', ''2'']]))" by code_simp
  have k: "\<exists>i0. parseRow ''a,b\<newline>1,2'' 0 = Some ([''a'', ''b''], i0)
         \<and> rows_read ''a,b\<newline>1,2'' i0 (length ''a,b\<newline>1,2'') [[''1'', ''2'']]
         \<and> list_all (\<lambda>r. length r = length [''a'', ''b'']) [[''1'', ''2'']]"
    using row_length_error_first_row [where content = "''a,b\<newline>1,2''"
        and header = "[''a'', ''b'']" and rs = "[[''1'', ''2'']]",
        THEN conjunct2, THEN conjunct2, THEN conjunct2, THEN conjunct2, THEN conjunct2,
        THEN conjunct2, THEN conjunct2, THEN conjunct1, THEN iffD1, OF g] .
  have a': "\<exists>j. first_bad_row (length ?columns) ?rows j
         \<and> row_length_error 2 2 3 = row_length_error (j + 1) (length (?rows ! j)) (length ?columns)"
    using b .
  have l: "list_all (\<lambda>r. length r = length [''a'', ''b'']) [[''1'', ''2'']]"
    by simp
  have m: "7 \<noteq> length ?T" "length [''3'', ''4'', ''5''] \<noteq> length [''a'', ''b'']"
    by simp_all
  show ?thesis
    using s n a' f p c h rr l m(1) r2 m(2) d g k by (intro conjI)
qed
section \<open>Claims about a newline at the end of the text\<close>

text \<open>
  C2, as amended. For every text \<open>T\<close> that parses to the columns \<open>C\<close> and the rows \<open>R\<close>
  and whose last field is not a quoted field left unclosed at the end of the text, the
  text \<open>T\<close> followed by a newline is read with one more row, of no field: with one column
  or more it is rejected, for row \<open>|R| + 1\<close> having 0 fields instead of \<open>|C|\<close>; with no
  column it parses to \<open>C\<close> and the rows \<open>R\<close> and an empty row.
\<close>

theorem final_newline_reads_one_more_row:
  assumes "parse T = Some (Inr (C, R))" and "\<not> last_field_unclosed T"
  shows "parse (T @ [newline])
       = Some (if C = [] then Inr (C, R @ [[]])
               else Inl (row_length_error (length R + 1) 0 (length C)))"
  using assms by (rule parse_newline_general)

theorem final_newline_reads_one_more_row_witness:
  "parse ''\"a,b\",c\<newline>1,2'' = Some (Inr ([''a,b'', ''c''], [[''1'', ''2'']]))
   \<and> \<not> last_field_unclosed ''\"a,b\",c\<newline>1,2''
   \<and> parse (''\"a,b\",c\<newline>1,2'' @ [newline]) = Some (Inl (row_length_error 2 0 2))
   \<and> parse [] = Some (Inr ([], []))
   \<and> \<not> last_field_unclosed []
   \<and> parse ([] @ [newline]) = Some (Inr ([], [[]]))"
proof -
  have p: "parse ''\"a,b\",c\<newline>1,2'' = Some (Inr ([''a,b'', ''c''], [[''1'', ''2'']]))"
    by code_simp
  have q: "\<not> last_field_unclosed ''\"a,b\",c\<newline>1,2''"
    by code_simp
  have p0: "parse [] = Some (Inr ([], []))"
    by code_simp
  have q0: "\<not> last_field_unclosed []"
    by code_simp
  from final_newline_reads_one_more_row [OF p q] final_newline_reads_one_more_row [OF p0 q0]
  show ?thesis
    using p q p0 q0 by (simp add: numeral_2_eq_2)
qed

text \<open>
  C2 as stated fails: the text \<open>a\<close>, newline, \<open>1\<close> parses to the column \<open>a\<close> and the row
  \<open>1\<close>; followed by a newline it is rejected for its row 2.
\<close>

theorem final_newline_rejected:
  "parse ''a\<newline>1'' = Some (Inr ([''a''], [[''1'']]))
   \<and> parse ''a\<newline>1\<newline>'' = Some (Inl (row_length_error 2 0 1))
   \<and> parse ''a\<newline>1\<newline>'' \<noteq> Some (Inr ([''a''], [[''1'']]))"
proof -
  have "parse ''a\<newline>1'' = Some (Inr ([''a''], [[''1'']]))" by code_simp
  moreover have "parse ''a\<newline>1\<newline>'' = Some (Inl (row_length_error 2 0 1))" by code_simp
  ultimately show ?thesis by simp
qed

text \<open>
  The condition on the last field is needed. In the text of the one field \<open>"ab\<close>, a quoted
  field that is never closed, the loop over the quoted field stops one character before
  the end, and the field read is \<open>a\<close>; with a newline after it the field read is \<open>ab\<close>,
  and no row is added.
\<close>

lemma unclosed_last_field_reads_on:
  "last_field_unclosed ''\"ab''
   \<and> parse ''\"ab'' = Some (Inr ([''a''], []))
   \<and> parse ''\"ab\<newline>'' = Some (Inr ([''ab''], []))"
proof -
  have "last_field_unclosed ''\"ab''" by code_simp
  moreover have "parse ''\"ab'' = Some (Inr ([''a''], []))" by code_simp
  moreover have "parse ''\"ab\<newline>'' = Some (Inr ([''ab''], []))" by code_simp
  ultimately show ?thesis by simp
qed
section \<open>Properties of \<open>cloneArray\<close>\<close>

lemma clone_elements_strings:
  "clone_elements clone (map Str strs) c h = Some (h\<lparr>arrays := (arrays h)(c := arrays h c @ map Str strs)\<rparr>)"
  by (induction strs arbitrary: h) (simp_all add: push_def)

lemma cloneArray_strings:
  assumes "arrays h a = map Str strs"
  shows "cloneArray (Suc depth) h a
    = Some (h\<lparr>arrays := (arrays h)(next_free h := map Str strs), next_free := Suc (next_free h)\<rparr>,
            next_free h)"
  by (simp add: new_array_def assms clone_elements_strings)

lemma same_old_refl [simp]: "same_old h h"
  by (simp add: same_old_def)

lemma is_strings_same_old: "is_strings h a strs \<Longrightarrow> same_old h h' \<Longrightarrow> is_strings h' a strs"
  by (auto simp: is_strings_def same_old_def)

lemma is_row_ref_same_old: "is_row_ref h v row \<Longrightarrow> same_old h h' \<Longrightarrow> is_row_ref h' v row"
  by (cases v) (auto simp: is_row_ref_def intro: is_strings_same_old)

lemma is_rows_same_old:
  assumes "is_rows h a rows" "same_old h h'"
  shows "is_rows h' a rows"
proof -
  have "a < next_free h'" "arrays h' a = arrays h a"
    using assms by (auto simp: is_rows_def same_old_def)
  moreover have "list_all2 (is_row_ref h') (arrays h a) rows"
    using assms(1) is_row_ref_same_old [OF _ assms(2)]
    by (auto simp: is_rows_def elim: list_all2_mono)
  ultimately show ?thesis by (simp add: is_rows_def)
qed

lemma clone_elements_rows:
  assumes "list_all2 (is_row_ref h) elements rows" "c < next_free h" "Ref c \<notin> set elements"
  shows "\<exists>h' copies. clone_elements (cloneArray (Suc depth)) elements c h = Some h'
           \<and> next_free h \<le> next_free h'
           \<and> (\<forall>a < next_free h. a \<noteq> c \<longrightarrow> arrays h' a = arrays h a)
           \<and> arrays h' c = arrays h c @ copies
           \<and> list_all2 (is_row_ref h') copies rows
           \<and> list_all (new_in h) copies"
  using assms
proof (induction elements arbitrary: rows h)
  case Nil
  then show ?case by simp
next
  case (Cons v elements all_rows)
  let ?nf = "next_free h"
  obtain row rows where all_rows: "all_rows = row # rows"
    and hyps: "is_row_ref h v row" "list_all2 (is_row_ref h) elements rows"
    using Cons.prems(1) by (auto simp: list_all2_Cons1)
  have "\<exists>b. v = Ref b \<and> b < next_free h \<and> arrays h b = map Str row"
    using hyps(1) by (cases v) (simp_all add: is_row_ref_def is_strings_def)
  then obtain b where v: "v = Ref b" and b: "b < ?nf" "arrays h b = map Str row"
    by blast
  define h2 where "h2 = push (h\<lparr>arrays := (arrays h)(?nf := map Str row), next_free := Suc ?nf\<rparr>)
      c (Ref ?nf)"
  have cl: "cloneArray (Suc depth) h b
      = Some (h\<lparr>arrays := (arrays h)(?nf := map Str row), next_free := Suc ?nf\<rparr>, ?nf)"
    using b(2) by (rule cloneArray_strings)
  have h2: "next_free h2 = Suc ?nf" "arrays h2 c = arrays h c @ [Ref ?nf]"
    "arrays h2 ?nf = map Str row" "\<And>a. a \<noteq> c \<Longrightarrow> a \<noteq> ?nf \<Longrightarrow> arrays h2 a = arrays h a"
    using Cons.prems(2) by (auto simp: h2_def push_def)
  have step: "clone_elements (cloneArray (Suc depth)) (v # elements) c h
      = clone_elements (cloneArray (Suc depth)) elements c h2"
    unfolding v h2_def using cl by simp
  have notc: "Ref c \<notin> set elements" using Cons.prems(3) by simp
  have mono: "is_row_ref h2 e r" if "is_row_ref h e r" "e \<in> set elements" for e r
  proof (cases e)
    case (Ref x)
    then have "x < ?nf" "arrays h x = map Str r" "x \<noteq> c"
      using that notc by (auto simp: is_row_ref_def is_strings_def)
    then show ?thesis using Ref h2(1) h2(4) [of x] by (simp add: is_row_ref_def is_strings_def)
  next
    case (Str x)
    then show ?thesis using that by (simp add: is_row_ref_def)
  qed
  have "list_all2 (is_row_ref h2) elements rows"
    unfolding list_all2_conv_all_nth
  proof (intro conjI allI impI)
    show "length elements = length rows"
      using hyps(2) by (rule list_all2_lengthD)
  next
    fix i
    assume "i < length elements"
    then show "is_row_ref h2 (elements ! i) (rows ! i)"
      using hyps(2) mono by (auto simp: list_all2_conv_all_nth)
  qed
  moreover have "c < next_free h2" using Cons.prems(2) h2(1) by simp
  ultimately obtain h' copies where r:
    "clone_elements (cloneArray (Suc depth)) elements c h2 = Some h'"
    "next_free h2 \<le> next_free h'"
    "\<forall>a < next_free h2. a \<noteq> c \<longrightarrow> arrays h' a = arrays h2 a"
    "arrays h' c = arrays h2 c @ copies"
    "list_all2 (is_row_ref h') copies rows"
    "list_all (new_in h2) copies"
    using Cons.IH [of h2 rows] notc by blast
  have nfc: "?nf \<noteq> c" using Cons.prems(2) by simp
  have 1: "next_free h \<le> next_free h'" using r(2) h2(1) by simp
  have 2: "\<forall>a < ?nf. a \<noteq> c \<longrightarrow> arrays h' a = arrays h a"
    using r(3) h2(1) h2(4) by auto
  have 3: "arrays h' c = arrays h c @ (Ref ?nf # copies)"
    using r(4) h2(2) by simp
  have "arrays h' ?nf = map Str row"
    using r(3) h2(1) h2(3) nfc by auto
  then have "is_row_ref h' (Ref ?nf) row"
    using r(2) h2(1) by (simp add: is_row_ref_def is_strings_def)
  then have 4: "list_all2 (is_row_ref h') (Ref ?nf # copies) (row # rows)"
    using r(5) by simp
  have "new_in h e" if "new_in h2 e" for e
    using that h2(1) by (cases e) (auto simp: new_in_def)
  then have 5: "list_all (new_in h) (Ref ?nf # copies)"
    using r(6) by (auto simp: new_in_def list_all_iff)
  have 0: "clone_elements (cloneArray (Suc depth)) (v # elements) c h = Some h'"
    using step r(1) by simp
  show ?case
    unfolding all_rows using 0 1 2 3 4 5
    by (intro exI [of _ h'] exI [of _ "Ref ?nf # copies"] conjI)
qed

lemma cloneArray_rows:
  assumes "is_rows h a rows"
  shows "\<exists>h' r. cloneArray (Suc (Suc depth)) h a = Some (h', r)
           \<and> r = next_free h \<and> same_old h h' \<and> is_rows h' r rows
           \<and> list_all (new_in h) (arrays h' r)"
proof -
  let ?nf = "next_free h"
  let ?h0 = "h\<lparr>arrays := (arrays h)(?nf := []), next_free := Suc ?nf\<rparr>"
  have so: "same_old h ?h0" by (simp add: same_old_def)
  have a: "a < ?nf" and rows: "list_all2 (is_row_ref h) (arrays h a) rows"
    using assms by (auto simp: is_rows_def)
  have "list_all2 (is_row_ref ?h0) (arrays h a) rows"
    using rows is_row_ref_same_old [OF _ so] by (auto elim: list_all2_mono)
  moreover have "?nf < next_free ?h0" by simp
  moreover have "Ref ?nf \<notin> set (arrays h a)"
  proof
    assume "Ref ?nf \<in> set (arrays h a)"
    then obtain row where "is_row_ref h (Ref ?nf) row"
      using rows by (auto simp: list_all2_conv_all_nth in_set_conv_nth)
    then show False by (simp add: is_row_ref_def is_strings_def)
  qed
  ultimately obtain h' copies where r:
    "clone_elements (cloneArray (Suc depth)) (arrays h a) ?nf ?h0 = Some h'"
    "next_free ?h0 \<le> next_free h'"
    "\<forall>x < next_free ?h0. x \<noteq> ?nf \<longrightarrow> arrays h' x = arrays ?h0 x"
    "arrays h' ?nf = arrays ?h0 ?nf @ copies"
    "list_all2 (is_row_ref h') copies rows"
    "list_all (new_in ?h0) copies"
    using clone_elements_rows [of ?h0 "arrays h a" rows ?nf depth] by blast
  have c: "cloneArray (Suc (Suc depth)) h a = Some (h', ?nf)"
    using r(1) by (simp add: new_array_def)
  have s: "same_old h h'"
    using r(2) r(3) by (auto simp: same_old_def)
  have i: "is_rows h' ?nf rows"
    using r(2) r(4) r(5) by (simp add: is_rows_def)
  have "new_in h e" if "new_in ?h0 e" for e
    using that by (cases e) (auto simp: new_in_def)
  then have n: "list_all (new_in h) (arrays h' ?nf)"
    using r(4) r(6) by (auto simp: list_all_iff)
  show ?thesis using c s i n
    by (intro exI [of _ h'] exI [of _ ?nf] conjI) simp_all
qed

lemma cloneArray_columns:
  assumes "is_strings h a strs"
  shows "\<exists>h' r. cloneArray (Suc depth) h a = Some (h', r)
           \<and> r = next_free h \<and> same_old h h' \<and> is_strings h' r strs"
  using assms cloneArray_strings [of h a strs depth]
  by (auto simp: is_strings_def same_old_def)

lemma same_old_write:
  assumes "same_old h h'" "next_free h \<le> a"
  shows "same_old h (write_array h' a elements)"
  using assms by (auto simp: same_old_def write_array_def)

lemma get_data_copy:
  assumes "is_rows h (o_data this) rows"
  shows "\<exists>h' r. get_data (Suc (Suc depth)) h this = Some (h', r)
           \<and> is_rows h' r rows \<and> same_old h h' \<and> next_free h \<le> r
           \<and> list_all (new_in h) (arrays h' r)"
  using cloneArray_rows [OF assms, of depth] by (auto simp: get_data_def)

lemma get_columns_copy:
  assumes "is_strings h (o_columns this) columns"
  shows "\<exists>h' r. get_columns (Suc depth) h this = Some (h', r)
           \<and> is_strings h' r columns \<and> same_old h h' \<and> next_free h \<le> r"
  using cloneArray_columns [OF assms, of depth] by (auto simp: get_columns_def)


section \<open>The setter on the store and the setter on values\<close>

lemma row_length_row: "is_row_ref h v row \<Longrightarrow> row_length h v = length row"
  by (cases v) (auto simp: is_row_ref_def is_strings_def row_length_def)

lemma store_check_rows_eq:
  assumes "is_strings h columns cols" "is_rows h data rows"
  shows "store_check_rows h columns data i = check_rows cols rows i"
proof (induction "length rows - i" arbitrary: i rule: less_induct)
  case less
  have len: "length (arrays h data) = length rows"
    using assms(2) by (auto simp: is_rows_def dest: list_all2_lengthD)
  have cols: "length (arrays h columns) = length cols"
    using assms(1) by (simp add: is_strings_def)
  show ?case
  proof (cases "i < length rows")
    case True
    have "is_row_ref h (arrays h data ! i) (rows ! i)"
      using assms(2) True len by (auto simp: is_rows_def dest: list_all2_nthD)
    then have r: "row_length h (arrays h data ! i) = length (rows ! i)"
      by (rule row_length_row)
    have "store_check_rows h columns data (i + 1) = check_rows cols rows (i + 1)"
      using True by (intro less.hyps) simp
    then show ?thesis
      using True len cols r
      by (subst store_check_rows.simps, subst check_rows.simps) simp
  next
    case False
    then show ?thesis
      using len by (subst store_check_rows.simps, subst check_rows.simps) simp
  qed
qed

lemma store_set_data_eq:
  assumes "is_strings h (o_columns this) cols" "is_rows h data rows"
  shows "fst (store_set_data h this data) = fst (set_data \<lparr>t_columns = cols, t_data = old\<rparr> rows)"
    and "snd (store_set_data h this data)
       = (if fst (store_set_data h this data) = None then this\<lparr>o_data := data\<rparr> else this)"
  using store_check_rows_eq [OF assms, of 0]
  by (auto simp: store_set_data_def set_data_def split: option.splits)
section \<open>Claims about the getters\<close>

text \<open>
  C10. When the rows of the table are in the store as \<open>rows\<close>, the getter \<open>data\<close> returns
  (two nested calls are enough) an array that holds \<open>rows\<close> and that is new, as is every
  row array in it, and it leaves the arrays that were there as they were. Whatever is then
  written to an array that was not there before the call, to the returned one or to one of
  its rows, as often as one likes, the rows of the table are still \<open>rows\<close>, and the getter
  called again returns \<open>rows\<close> again. The same holds of the getter \<open>columns\<close>.
\<close>

theorem getters_return_copies:
  "(is_rows h (o_data this) rows \<longrightarrow>
      (\<exists>h' r. get_data (Suc (Suc depth)) h this = Some (h', r)
         \<and> is_rows h' r rows \<and> same_old h h'
         \<and> next_free h \<le> r \<and> list_all (new_in h) (arrays h' r)
         \<and> (\<forall>a elements. next_free h \<le> a \<longrightarrow> same_old h (write_array h' a elements))
         \<and> (\<forall>h2. same_old h h2 \<longrightarrow>
               is_rows h2 (o_data this) rows
             \<and> (\<exists>h3 r'. get_data (Suc (Suc depth)) h2 this = Some (h3, r') \<and> is_rows h3 r' rows))))
   \<and> (is_strings h (o_columns this) columns \<longrightarrow>
      (\<exists>h' r. get_columns (Suc depth) h this = Some (h', r)
         \<and> is_strings h' r columns \<and> same_old h h' \<and> next_free h \<le> r
         \<and> (\<forall>a elements. next_free h \<le> a \<longrightarrow> same_old h (write_array h' a elements))
         \<and> (\<forall>h2. same_old h h2 \<longrightarrow>
               is_strings h2 (o_columns this) columns
             \<and> (\<exists>h3 r'. get_columns (Suc depth) h2 this = Some (h3, r')
                   \<and> is_strings h3 r' columns))))"
proof (intro conjI impI)
  assume wf: "is_rows h (o_data this) rows"
  obtain h' r where g: "get_data (Suc (Suc depth)) h this = Some (h', r)"
    "is_rows h' r rows" "same_old h h'" "next_free h \<le> r" "list_all (new_in h) (arrays h' r)"
    using get_data_copy [OF wf, of depth] by blast
  have w: "\<forall>a elements. next_free h \<le> a \<longrightarrow> same_old h (write_array h' a elements)"
    using g(3) by (simp add: same_old_write)
  have later: "is_rows h2 (o_data this) rows
       \<and> (\<exists>h3 r'. get_data (Suc (Suc depth)) h2 this = Some (h3, r') \<and> is_rows h3 r' rows)"
    if "same_old h h2" for h2
  proof -
    have "is_rows h2 (o_data this) rows" using wf that by (rule is_rows_same_old)
    then show ?thesis using get_data_copy [of h2 this rows depth] by blast
  qed
  show "\<exists>h' r. get_data (Suc (Suc depth)) h this = Some (h', r)
         \<and> is_rows h' r rows \<and> same_old h h'
         \<and> next_free h \<le> r \<and> list_all (new_in h) (arrays h' r)
         \<and> (\<forall>a elements. next_free h \<le> a \<longrightarrow> same_old h (write_array h' a elements))
         \<and> (\<forall>h2. same_old h h2 \<longrightarrow>
               is_rows h2 (o_data this) rows
             \<and> (\<exists>h3 r'. get_data (Suc (Suc depth)) h2 this = Some (h3, r') \<and> is_rows h3 r' rows))"
  proof (rule exI [of _ h'], rule exI [of _ r], intro conjI)
    show "\<forall>h2. same_old h h2 \<longrightarrow>
               is_rows h2 (o_data this) rows
             \<and> (\<exists>h3 r'. get_data (Suc (Suc depth)) h2 this = Some (h3, r') \<and> is_rows h3 r' rows)"
      using later by blast
  qed (use g w in simp_all)
next
  assume wf: "is_strings h (o_columns this) columns"
  obtain h' r where g: "get_columns (Suc depth) h this = Some (h', r)"
    "is_strings h' r columns" "same_old h h'" "next_free h \<le> r"
    using get_columns_copy [OF wf, of depth] by blast
  have w: "\<forall>a elements. next_free h \<le> a \<longrightarrow> same_old h (write_array h' a elements)"
    using g(3) by (simp add: same_old_write)
  have later: "is_strings h2 (o_columns this) columns
       \<and> (\<exists>h3 r'. get_columns (Suc depth) h2 this = Some (h3, r') \<and> is_strings h3 r' columns)"
    if "same_old h h2" for h2
  proof -
    have "is_strings h2 (o_columns this) columns" using wf that by (rule is_strings_same_old)
    then show ?thesis using get_columns_copy [of h2 this columns depth] by blast
  qed
  show "\<exists>h' r. get_columns (Suc depth) h this = Some (h', r)
         \<and> is_strings h' r columns \<and> same_old h h' \<and> next_free h \<le> r
         \<and> (\<forall>a elements. next_free h \<le> a \<longrightarrow> same_old h (write_array h' a elements))
         \<and> (\<forall>h2. same_old h h2 \<longrightarrow>
               is_strings h2 (o_columns this) columns
             \<and> (\<exists>h3 r'. get_columns (Suc depth) h2 this = Some (h3, r')
                   \<and> is_strings h3 r' columns))"
  proof (rule exI [of _ h'], rule exI [of _ r], intro conjI)
    show "\<forall>h2. same_old h h2 \<longrightarrow>
               is_strings h2 (o_columns this) columns
             \<and> (\<exists>h3 r'. get_columns (Suc depth) h2 this = Some (h3, r')
                   \<and> is_strings h3 r' columns)"
      using later by blast
  qed (use g w in simp_all)
qed

theorem getters_return_copies_witness:
  "is_rows example_store (o_data \<lparr>o_columns = 0, o_data = 1\<rparr>) [[''1'', ''2''], [''3'', ''4'']]
   \<and> is_strings example_store (o_columns \<lparr>o_columns = 0, o_data = 1\<rparr>) [''a'', ''b'']
   \<and> (\<exists>h' r. get_data 2 example_store \<lparr>o_columns = 0, o_data = 1\<rparr> = Some (h', r)
         \<and> is_rows h' r [[''1'', ''2''], [''3'', ''4'']]
         \<and> is_rows (write_array h' r [Ref 2]) 1 [[''1'', ''2''], [''3'', ''4'']])
   \<and> (\<exists>h' r. get_columns 1 example_store \<lparr>o_columns = 0, o_data = 1\<rparr> = Some (h', r)
         \<and> is_strings h' r [''a'', ''b'']
         \<and> is_strings (write_array h' r [Str ''x'']) 0 [''a'', ''b''])"
proof -
  let ?obj = "\<lparr>o_columns = 0, o_data = 1\<rparr>"
  let ?rows = "[[''1'', ''2''], [''3'', ''4'']]"
  have d: "is_rows example_store (o_data ?obj) ?rows"
    by (simp add: example_store_def is_rows_def is_row_ref_def is_strings_def)
  have c: "is_strings example_store (o_columns ?obj) [''a'', ''b'']"
    by (simp add: example_store_def is_strings_def)
  note t = getters_return_copies [of example_store ?obj ?rows 0 "[''a'', ''b'']"]
  note t1 = t [THEN conjunct1, THEN mp, OF d]
  note t2 = t [THEN conjunct2, THEN mp, OF c]
  from t1 obtain h' r where g: "get_data (Suc (Suc 0)) example_store ?obj = Some (h', r)
         \<and> is_rows h' r ?rows \<and> same_old example_store h'
         \<and> next_free example_store \<le> r \<and> list_all (new_in example_store) (arrays h' r)
         \<and> (\<forall>a elements. next_free example_store \<le> a
               \<longrightarrow> same_old example_store (write_array h' a elements))
         \<and> (\<forall>h2. same_old example_store h2 \<longrightarrow>
               is_rows h2 (o_data ?obj) ?rows
             \<and> (\<exists>h3 r'. get_data (Suc (Suc 0)) h2 ?obj = Some (h3, r') \<and> is_rows h3 r' ?rows))"
    by (elim exE)
  have "same_old example_store (write_array h' r [Ref 2])"
    using g by simp
  then have "is_rows (write_array h' r [Ref 2]) (o_data ?obj) ?rows"
    using g by simp
  then have 1: "\<exists>h' r. get_data 2 example_store ?obj = Some (h', r)
         \<and> is_rows h' r ?rows \<and> is_rows (write_array h' r [Ref 2]) 1 ?rows"
    using g by (intro exI [of _ h'] exI [of _ r]) (simp add: numeral_2_eq_2)
  from t2 obtain k' q where k: "get_columns (Suc 0) example_store ?obj = Some (k', q)
         \<and> is_strings k' q [''a'', ''b''] \<and> same_old example_store k'
         \<and> next_free example_store \<le> q
         \<and> (\<forall>a elements. next_free example_store \<le> a
               \<longrightarrow> same_old example_store (write_array k' a elements))
         \<and> (\<forall>h2. same_old example_store h2 \<longrightarrow>
               is_strings h2 (o_columns ?obj) [''a'', ''b'']
             \<and> (\<exists>h3 r'. get_columns (Suc 0) h2 ?obj = Some (h3, r')
                   \<and> is_strings h3 r' [''a'', ''b'']))"
    by (elim exE)
  have "same_old example_store (write_array k' q [Str ''x''])"
    using k by simp
  then have "is_strings (write_array k' q [Str ''x'']) (o_columns ?obj) [''a'', ''b'']"
    using k by simp
  then have 2: "\<exists>h' r. get_columns 1 example_store ?obj = Some (h', r)
         \<and> is_strings h' r [''a'', ''b'']
         \<and> is_strings (write_array h' r [Str ''x'']) 0 [''a'', ''b'']"
    using k by (intro exI [of _ k'] exI [of _ q]) simp
  show ?thesis using d c 1 2 by (intro conjI)
qed


section \<open>Claim about the rows given to the constructor\<close>

text \<open>
  C8. There is a state in which a row of the table has not as many fields as there are
  columns. The constructor is given the columns \<open>a,b\<close> and the rows \<open>1,2\<close> and \<open>3,4\<close> of
  the example store; it succeeds, and the rows of the object are then the array of the
  caller itself, of the right shape. The caller then removes the last field of its first
  row (\<open>data[0].pop()\<close>): with no call of the setter, hence no validation, the first row
  of the table has one field where there are two columns, and this is what the getter
  \<open>data\<close> returns.
\<close>

theorem caller_changes_stored_rows:
  "snd (store_new_Table example_store 0 (Some 1)) = Inr \<lparr>o_columns = 0, o_data = 1\<rparr>
   \<and> is_strings (fst (store_new_Table example_store 0 (Some 1))) 0 [''a'', ''b'']
   \<and> is_rows (fst (store_new_Table example_store 0 (Some 1))) 1 [[''1'', ''2''], [''3'', ''4'']]
   \<and> store_shape_ok (fst (store_new_Table example_store 0 (Some 1))) \<lparr>o_columns = 0, o_data = 1\<rparr>
   \<and> is_strings (write_array (fst (store_new_Table example_store 0 (Some 1))) 2 [Str ''1'']) 0
        [''a'', ''b'']
   \<and> is_rows (write_array (fst (store_new_Table example_store 0 (Some 1))) 2 [Str ''1'']) 1
        [[''1''], [''3'', ''4'']]
   \<and> \<not> store_shape_ok (write_array (fst (store_new_Table example_store 0 (Some 1))) 2 [Str ''1''])
        \<lparr>o_columns = 0, o_data = 1\<rparr>
   \<and> (\<exists>h' r. get_data 2 (write_array (fst (store_new_Table example_store 0 (Some 1))) 2 [Str ''1''])
                 \<lparr>o_columns = 0, o_data = 1\<rparr> = Some (h', r)
         \<and> is_rows h' r [[''1''], [''3'', ''4'']])"
proof -
  let ?h = "fst (store_new_Table example_store 0 (Some 1))"
  let ?t = "\<lparr>o_columns = 0, o_data = 1\<rparr>"
  have made: "snd (store_new_Table example_store 0 (Some 1)) = Inr ?t"
    by code_simp
  have a: "arrays ?h 0 = [Str ''a'', Str ''b'']" "arrays ?h 1 = [Ref 2, Ref 3]"
    "arrays ?h 2 = [Str ''1'', Str ''2'']" "arrays ?h 3 = [Str ''3'', Str ''4'']"
    "next_free ?h = 6"
    by code_simp+
  have c: "is_strings ?h 0 [''a'', ''b'']"
    using a by (simp add: is_strings_def)
  have d: "is_rows ?h 1 [[''1'', ''2''], [''3'', ''4'']]"
    using a by (simp add: is_rows_def is_row_ref_def is_strings_def)
  have ok: "store_shape_ok ?h ?t"
    using a by (simp add: store_shape_ok_def row_length_def)
  have c': "is_strings (write_array ?h 2 [Str ''1'']) 0 [''a'', ''b'']"
    using a by (simp add: is_strings_def write_array_def)
  have d': "is_rows (write_array ?h 2 [Str ''1'']) 1 [[''1''], [''3'', ''4'']]"
    using a by (simp add: is_rows_def is_row_ref_def is_strings_def write_array_def)
  have bad: "\<not> store_shape_ok (write_array ?h 2 [Str ''1'']) ?t"
    using a by (simp add: store_shape_ok_def row_length_def write_array_def)
  have "is_rows (write_array ?h 2 [Str ''1'']) (o_data ?t) [[''1''], [''3'', ''4'']]"
    using d' by simp
  from get_data_copy [OF this, of 0]
  have g: "\<exists>h' r. get_data 2 (write_array ?h 2 [Str ''1'']) ?t = Some (h', r)
         \<and> is_rows h' r [[''1''], [''3'', ''4'']]"
    by (auto simp: numeral_2_eq_2)
  show ?thesis using made c d ok c' d' bad g by (intro conjI)
qed
end
